theory Spec2Isabelle
  imports Main
begin

section \<open>Objects tasks: Rectangle, JSON helpers and the CSS selector builder\<close>

text \<open>
  A shallow embedding of \<^verbatim>\<open>src/05-objects-tasks.js\<close>. Objects are records, a method is a
  function from the object's state to its outcome and the state after the call, and a
  \<^verbatim>\<open>throw\<close> is the \<open>Inl\<close> branch of the outcome.
\<close>

subsection \<open>Rectangle\<close>

text \<open>
  \<^verbatim>\<open>function Rectangle(width, height) { this.width = width; this.height = height;
    this.getArea = () => this.width * this.height; }\<close>
  The two fields hold whatever was passed; \<open>getArea\<close> multiplies the fields with the
  multiplication of the values' type, which is left abstract.
\<close>

record 'a rectangle =
  width :: 'a
  height :: 'a

definition Rectangle :: "'a \<Rightarrow> 'a \<Rightarrow> 'a rectangle" where
  "Rectangle w h = \<lparr>width = w, height = h\<rparr>"

definition getArea :: "('a::times) rectangle \<Rightarrow> 'a" where
  "getArea this = width this * height this"

subsection \<open>JavaScript values and array helpers used by the builder\<close>

text \<open>
  The values that flow through \<open>stringify\<close>: \<^verbatim>\<open>undefined\<close>, a string, or an array of
  strings. \<open>toString\<close> is the conversion that \<^verbatim>\<open>+\<close> with a string operand and a template
  literal apply: an array is joined with commas, \<^verbatim>\<open>undefined\<close> reads "undefined".
\<close>

datatype jsval = Undefined | Str string | Arr "string list"

fun join :: "'a list \<Rightarrow> 'a list list \<Rightarrow> 'a list" where
  "join sep [] = []"
| "join sep [x] = x"
| "join sep (x # y # ys) = x @ sep @ join sep (y # ys)"

fun toString :: "jsval \<Rightarrow> string" where
  "toString Undefined = ''undefined''"
| "toString (Str s) = s"
| "toString (Arr xs) = join '','' xs"

text \<open>\<^verbatim>\<open>a + s\<close> where \<open>s\<close> is a string: string concatenation after converting \<open>a\<close>.\<close>

definition plus_str :: "jsval \<Rightarrow> string \<Rightarrow> jsval" where
  "plus_str a s = Str (toString a @ s)"

text \<open>\<^verbatim>\<open>Array.prototype.indexOf\<close>: the first index of the element, or \<open>-1\<close>.\<close>

fun indexOf_from :: "'a list \<Rightarrow> 'a \<Rightarrow> int \<Rightarrow> int" where
  "indexOf_from [] x i = - 1"
| "indexOf_from (y # ys) x i = (if y = x then i else indexOf_from ys x (i + 1))"

definition indexOf :: "'a list \<Rightarrow> 'a \<Rightarrow> int" where
  "indexOf xs x = indexOf_from xs x 0"

text \<open>\<^verbatim>\<open>Array.prototype.filter\<close> with a callback of the element and its index.\<close>

fun filter_from :: "('a \<Rightarrow> int \<Rightarrow> bool) \<Rightarrow> 'a list \<Rightarrow> int \<Rightarrow> 'a list" where
  "filter_from p [] i = []"
| "filter_from p (x # xs) i = (if p x i then x # filter_from p xs (i + 1) else filter_from p xs (i + 1))"

definition filter_indexed :: "('a \<Rightarrow> int \<Rightarrow> bool) \<Rightarrow> 'a list \<Rightarrow> 'a list" where
  "filter_indexed p xs = filter_from p xs 0"

subsection \<open>JSON text: what \<^verbatim>\<open>JSON.stringify\<close> writes and \<^verbatim>\<open>JSON.parse\<close> reads\<close>

text \<open>
  \<^verbatim>\<open>getJSON\<close> is \<^verbatim>\<open>JSON.stringify(obj)\<close> and \<^verbatim>\<open>fromJSON\<close> is
  \<^verbatim>\<open>Object.setPrototypeOf(JSON.parse(json), proto)\<close>, so the two built-ins are part of
  the program. They are modelled after ECMA-262 (sections JSON.stringify, QuoteJSONString,
  JSON.parse and the JSON grammar of ECMA-404).

  A JavaScript string is a sequence of 16-bit code units.
\<close>

type_synonym code_unit = nat
type_synonym jsstring = "code_unit list"

text \<open>The code units of a string of ASCII characters.\<close>

definition ascii :: "string \<Rightarrow> jsstring" where
  "ascii s = map of_char s"

text \<open>
  The values \<^verbatim>\<open>JSON.parse\<close> can return, which are also the values whose JSON text is
  determined by their own enumerable string-keyed data properties: null, booleans, numbers,
  strings, arrays and ordinary objects. An object is the list of its properties in the order
  \<^verbatim>\<open>Object.keys\<close> enumerates them. The type \<open>'n\<close> is the type of numbers.
  Values that \<^verbatim>\<open>JSON.stringify\<close> treats specially (\<^verbatim>\<open>undefined\<close>, functions,
  symbols, BigInts, objects with \<^verbatim>\<open>toJSON\<close>, cyclic structures) are not values of this type.
\<close>

datatype 'n json =
    JNull | JBool bool | JNum 'n | JStr jsstring
  | JArr "'n json list" | JObj "(jsstring \<times> 'n json) list"

text \<open>
  The exceptions of the two built-ins. \<open>OutOfFuel\<close> is not a JavaScript exception: it is
  what the parser below returns when its recursion bound is used up, which lemma
  \<open>JSON_parse_fuel\<close> shows never happens.
\<close>

datatype js_error = SyntaxError | TypeError | OutOfFuel

text \<open>
  Numbers enter the two built-ins through three operations of the language only:
  whether a number is finite (\<^verbatim>\<open>JSON.stringify\<close> writes \<^verbatim>\<open>null\<close> for
  \<^verbatim>\<open>NaN\<close> and the infinities), \<^verbatim>\<open>Number::toString\<close>, which writes a finite number,
  and \<^verbatim>\<open>StringToNumber\<close>, which \<^verbatim>\<open>JSON.parse\<close> applies to a number token. The model
  takes the three as parameters, so that it fixes nothing about floating-point numbers and
  what is proved holds for the operations of JavaScript in particular.
\<close>

record 'n numbers =
  isFinite :: "'n \<Rightarrow> bool"
  Number_toString :: "'n \<Rightarrow> jsstring"
  StringToNumber :: "jsstring \<Rightarrow> 'n"

text \<open>
  \<^verbatim>\<open>UnicodeEscape\<close>: a backslash, \<^verbatim>\<open>u\<close> and four lower-case hexadecimal digits.
\<close>

definition hex_digit :: "nat \<Rightarrow> code_unit" where
  "hex_digit n = (if n < 10 then 48 + n else 87 + n)"

definition UnicodeEscape :: "code_unit \<Rightarrow> jsstring" where
  "UnicodeEscape c =
     [0x5C, 0x75, hex_digit (c div 4096), hex_digit (c div 256 mod 16),
      hex_digit (c div 16 mod 16), hex_digit (c mod 16)]"

definition is_leading_surrogate :: "code_unit \<Rightarrow> bool" where
  "is_leading_surrogate c \<longleftrightarrow> 0xD800 \<le> c \<and> c \<le> 0xDBFF"

definition is_trailing_surrogate :: "code_unit \<Rightarrow> bool" where
  "is_trailing_surrogate c \<longleftrightarrow> 0xDC00 \<le> c \<and> c \<le> 0xDFFF"

text \<open>
  \<^verbatim>\<open>QuoteJSONString\<close>: the short escapes for backspace, tab, line feed, form feed, carriage
  return, the double quote and the backslash; \<^verbatim>\<open>UnicodeEscape\<close> for the other code units
  below space and for a surrogate that is not part of a pair; every other code unit as it is.
\<close>

definition QuoteJSONUnit :: "code_unit \<Rightarrow> jsstring" where
  "QuoteJSONUnit c =
     (if c = 0x08 then [0x5C, 0x62]
      else if c = 0x09 then [0x5C, 0x74]
      else if c = 0x0A then [0x5C, 0x6E]
      else if c = 0x0C then [0x5C, 0x66]
      else if c = 0x0D then [0x5C, 0x72]
      else if c = 0x22 then [0x5C, 0x22]
      else if c = 0x5C then [0x5C, 0x5C]
      else if c < 0x20 then UnicodeEscape c
      else [c])"

fun QuoteJSONChars :: "jsstring \<Rightarrow> jsstring" where
  "QuoteJSONChars [] = []"
| "QuoteJSONChars (c # cs) =
     (if is_leading_surrogate c then
        (case cs of
           [] \<Rightarrow> UnicodeEscape c
         | d # ds \<Rightarrow>
             if is_trailing_surrogate d then c # d # QuoteJSONChars ds
             else UnicodeEscape c @ QuoteJSONChars cs)
      else if is_trailing_surrogate c then UnicodeEscape c @ QuoteJSONChars cs
      else QuoteJSONUnit c @ QuoteJSONChars cs)"

definition QuoteJSONString :: "jsstring \<Rightarrow> jsstring" where
  "QuoteJSONString s = 0x22 # QuoteJSONChars s @ [0x22]"

text \<open>
  \<^verbatim>\<open>JSON.stringify(value)\<close> with no replacer and no indentation
  (\<^verbatim>\<open>SerializeJSONProperty\<close>, \<^verbatim>\<open>SerializeJSONArray\<close>, \<^verbatim>\<open>SerializeJSONObject\<close>).
\<close>

fun JSON_stringify :: "'n numbers \<Rightarrow> 'n json \<Rightarrow> jsstring" where
  "JSON_stringify N JNull = ascii ''null''"
| "JSON_stringify N (JBool b) = (if b then ascii ''true'' else ascii ''false'')"
| "JSON_stringify N (JNum n) = (if isFinite N n then Number_toString N n else ascii ''null'')"
| "JSON_stringify N (JStr s) = QuoteJSONString s"
| "JSON_stringify N (JArr vs) = 0x5B # join [0x2C] (map (JSON_stringify N) vs) @ [0x5D]"
| "JSON_stringify N (JObj kvs) =
     0x7B # join [0x2C] (map (\<lambda>(k, v). QuoteJSONString k @ 0x3A # JSON_stringify N v) kvs) @ [0x7D]"

text \<open>
  \<^verbatim>\<open>JSON.parse\<close>. White space is space, tab, line feed and carriage return.
\<close>

definition is_ws :: "code_unit \<Rightarrow> bool" where
  "is_ws c \<longleftrightarrow> c = 0x20 \<or> c = 0x09 \<or> c = 0x0A \<or> c = 0x0D"

definition skip_ws :: "jsstring \<Rightarrow> jsstring" where
  "skip_ws s = dropWhile is_ws s"

definition is_digit :: "code_unit \<Rightarrow> bool" where
  "is_digit c \<longleftrightarrow> 48 \<le> c \<and> c \<le> 57"

text \<open>
  The characters of a string literal after its opening quote, up to the closing quote:
  escapes are decoded, a code unit below space is a syntax error.
\<close>

definition hex_value :: "code_unit \<Rightarrow> nat option" where
  "hex_value c =
     (if 48 \<le> c \<and> c \<le> 57 then Some (c - 48)
      else if 97 \<le> c \<and> c \<le> 102 then Some (c - 87)
      else if 65 \<le> c \<and> c \<le> 70 then Some (c - 55)
      else None)"

definition unescape :: "code_unit \<Rightarrow> code_unit option" where
  "unescape e =
     (if e = 0x22 then Some 0x22
      else if e = 0x5C then Some 0x5C
      else if e = 0x2F then Some 0x2F
      else if e = 0x62 then Some 0x08
      else if e = 0x66 then Some 0x0C
      else if e = 0x6E then Some 0x0A
      else if e = 0x72 then Some 0x0D
      else if e = 0x74 then Some 0x09
      else None)"

fun parse_chars :: "jsstring \<Rightarrow> js_error + (jsstring \<times> jsstring)" where
  "parse_chars [] = Inl SyntaxError"
| "parse_chars (c # cs) =
     (if c = 0x22 then Inr ([], cs)
      else if c = 0x5C then
        (case cs of
           [] \<Rightarrow> Inl SyntaxError
         | e # es \<Rightarrow>
             if e = 0x75 then
               (case es of
                  h1 # h2 # h3 # h4 # rest \<Rightarrow>
                    (case (hex_value h1, hex_value h2, hex_value h3, hex_value h4) of
                       (Some x1, Some x2, Some x3, Some x4) \<Rightarrow>
                         (case parse_chars rest of
                            Inl err \<Rightarrow> Inl err
                          | Inr (s, r) \<Rightarrow> Inr ((4096 * x1 + 256 * x2 + 16 * x3 + x4) # s, r))
                     | _ \<Rightarrow> Inl SyntaxError)
                | _ \<Rightarrow> Inl SyntaxError)
             else
               (case unescape e of
                  None \<Rightarrow> Inl SyntaxError
                | Some ch \<Rightarrow>
                    (case parse_chars es of
                       Inl err \<Rightarrow> Inl err
                     | Inr (s, r) \<Rightarrow> Inr (ch # s, r))))
      else if c < 0x20 then Inl SyntaxError
      else
        (case parse_chars cs of
           Inl err \<Rightarrow> Inl err
         | Inr (s, r) \<Rightarrow> Inr (c # s, r)))"

text \<open>
  A number token: an optional minus, an integer part with no leading zero, an optional
  fraction of at least one digit, an optional exponent of at least one digit. The token is the
  longest run of characters that can occur in a number; since a number is never followed
  directly by one of these characters in a JSON text, the text is rejected when that run is
  not a number.
\<close>

definition is_number_char :: "code_unit \<Rightarrow> bool" where
  "is_number_char c \<longleftrightarrow>
     is_digit c \<or> c = 0x2D \<or> c = 0x2B \<or> c = 0x2E \<or> c = 0x65 \<or> c = 0x45"

definition exponent_part :: "jsstring \<Rightarrow> bool" where
  "exponent_part r \<longleftrightarrow>
     r = [] \<or>
     ((hd r = 0x65 \<or> hd r = 0x45) \<and>
      (let ds = (if tl r \<noteq> [] \<and> (hd (tl r) = 0x2B \<or> hd (tl r) = 0x2D) then tl (tl r) else tl r)
       in ds \<noteq> [] \<and> list_all is_digit ds))"

definition fraction_part :: "jsstring \<Rightarrow> bool" where
  "fraction_part r \<longleftrightarrow>
     (if r \<noteq> [] \<and> hd r = 0x2E
      then takeWhile is_digit (tl r) \<noteq> [] \<and> exponent_part (dropWhile is_digit (tl r))
      else exponent_part r)"

definition number_grammar :: "jsstring \<Rightarrow> bool" where
  "number_grammar t \<longleftrightarrow>
     (let unsigned = (if t \<noteq> [] \<and> hd t = 0x2D then tl t else t);
          integer = takeWhile is_digit unsigned
      in (integer = [0x30] \<or> (integer \<noteq> [] \<and> hd integer \<noteq> 0x30)) \<and>
         fraction_part (dropWhile is_digit unsigned))"

definition parse_number :: "'n numbers \<Rightarrow> jsstring \<Rightarrow> js_error + ('n json \<times> jsstring)" where
  "parse_number N s =
     (let token = takeWhile is_number_char s;
          rest = dropWhile is_number_char s
      in if number_grammar token then Inr (JNum (StringToNumber N token), rest)
         else Inl SyntaxError)"

text \<open>
  \<^verbatim>\<open>CreateDataProperty\<close> on the object being built: a key that is already present keeps
  its place and takes the new value; a new key goes where \<^verbatim>\<open>OrdinaryOwnPropertyKeys\<close>
  lists it, the array indices (the canonical decimal texts of the integers below
  \<open>2\<^sup>3\<^sup>2 - 1\<close>) in ascending order before all other keys, these in order of creation.
\<close>

definition index_value :: "jsstring \<Rightarrow> nat" where
  "index_value k = foldl (\<lambda>a c. 10 * a + (c - 48)) 0 k"

definition is_array_index :: "jsstring \<Rightarrow> bool" where
  "is_array_index k \<longleftrightarrow>
     k \<noteq> [] \<and> list_all is_digit k \<and> (hd k = 0x30 \<longrightarrow> k = [0x30]) \<and> index_value k < 4294967295"

definition precedes :: "jsstring \<Rightarrow> jsstring \<times> 'v \<Rightarrow> bool" where
  "precedes k kv \<longleftrightarrow> is_array_index (fst kv) \<and> index_value (fst kv) < index_value k"

definition CreateDataProperty ::
    "jsstring \<Rightarrow> 'n json \<Rightarrow> (jsstring \<times> 'n json) list \<Rightarrow> (jsstring \<times> 'n json) list" where
  "CreateDataProperty k v kvs =
     (if k \<in> set (map fst kvs) then map (\<lambda>(k', v'). if k' = k then (k', v) else (k', v')) kvs
      else if is_array_index k then takeWhile (precedes k) kvs @ (k, v) # dropWhile (precedes k) kvs
      else kvs @ [(k, v)])"

definition CreateDataProperties :: "(jsstring \<times> 'n json) list \<Rightarrow> (jsstring \<times> 'n json) list" where
  "CreateDataProperties kvs = foldl (\<lambda>m (k, v). CreateDataProperty k v m) [] kvs"

text \<open>
  The recursive-descent parser. The recursion of \<open>parse_value\<close> is bounded by a number
  that is decreased at every call; \<open>JSON_parse\<close> starts with a bound that is large enough
  for its text (lemma \<open>JSON_parse_fuel\<close>).
\<close>

definition starts_with :: "code_unit \<Rightarrow> jsstring \<Rightarrow> bool" where
  "starts_with c s \<longleftrightarrow> s \<noteq> [] \<and> hd s = c"

definition parse_scalar :: "'n numbers \<Rightarrow> jsstring \<Rightarrow> js_error + ('n json \<times> jsstring)" where
  "parse_scalar N t =
     (if starts_with 0x22 t then
        (case parse_chars (tl t) of
           Inl err \<Rightarrow> Inl err
         | Inr (str, r) \<Rightarrow> Inr (JStr str, r))
      else if starts_with 0x2D t \<or> (t \<noteq> [] \<and> is_digit (hd t)) then parse_number N t
      else if take 4 t = ascii ''true'' then Inr (JBool True, drop 4 t)
      else if take 5 t = ascii ''false'' then Inr (JBool False, drop 5 t)
      else if take 4 t = ascii ''null'' then Inr (JNull, drop 4 t)
      else Inl SyntaxError)"

definition parse_key :: "jsstring \<Rightarrow> js_error + (jsstring \<times> jsstring)" where
  "parse_key s =
     (if starts_with 0x22 (skip_ws s) then
        (case parse_chars (tl (skip_ws s)) of
           Inl err \<Rightarrow> Inl err
         | Inr (k, r) \<Rightarrow>
             if starts_with 0x3A (skip_ws r) then Inr (k, tl (skip_ws r))
             else Inl SyntaxError)
      else Inl SyntaxError)"

definition and_then :: "js_error + ('a \<times> jsstring) \<Rightarrow> ('a \<Rightarrow> 'b) \<Rightarrow> js_error + ('b \<times> jsstring)" where
  "and_then r f = (case r of Inl err \<Rightarrow> Inl err | Inr (x, rest) \<Rightarrow> Inr (f x, rest))"

fun parse_value :: "'n numbers \<Rightarrow> nat \<Rightarrow> jsstring \<Rightarrow> js_error + ('n json \<times> jsstring)"
  and parse_elements :: "'n numbers \<Rightarrow> nat \<Rightarrow> jsstring \<Rightarrow> js_error + ('n json list \<times> jsstring)"
  and parse_members ::
    "'n numbers \<Rightarrow> nat \<Rightarrow> jsstring \<Rightarrow> js_error + ((jsstring \<times> 'n json) list \<times> jsstring)"
where
  "parse_value N 0 s = Inl OutOfFuel"
| "parse_value N (Suc n) s =
     (if starts_with 0x5B (skip_ws s) then
        (if starts_with 0x5D (skip_ws (tl (skip_ws s)))
         then Inr (JArr [], tl (skip_ws (tl (skip_ws s))))
         else and_then (parse_elements N n (tl (skip_ws s))) JArr)
      else if starts_with 0x7B (skip_ws s) then
        (if starts_with 0x7D (skip_ws (tl (skip_ws s)))
         then Inr (JObj [], tl (skip_ws (tl (skip_ws s))))
         else and_then (parse_members N n (tl (skip_ws s))) (\<lambda>kvs. JObj (CreateDataProperties kvs)))
      else parse_scalar N (skip_ws s))"
| "parse_elements N 0 s = Inl OutOfFuel"
| "parse_elements N (Suc n) s =
     (case parse_value N n s of
        Inl err \<Rightarrow> Inl err
      | Inr (v, r) \<Rightarrow>
          if starts_with 0x2C (skip_ws r)
            then and_then (parse_elements N n (tl (skip_ws r))) (\<lambda>vs. v # vs)
          else if starts_with 0x5D (skip_ws r) then Inr ([v], tl (skip_ws r))
          else Inl SyntaxError)"
| "parse_members N 0 s = Inl OutOfFuel"
| "parse_members N (Suc n) s =
     (case parse_key s of
        Inl err \<Rightarrow> Inl err
      | Inr (k, r) \<Rightarrow>
          (case parse_value N n r of
             Inl err \<Rightarrow> Inl err
           | Inr (v, r') \<Rightarrow>
               if starts_with 0x2C (skip_ws r')
                 then and_then (parse_members N n (tl (skip_ws r'))) (\<lambda>kvs. (k, v) # kvs)
               else if starts_with 0x7D (skip_ws r') then Inr ([(k, v)], tl (skip_ws r'))
               else Inl SyntaxError))"

definition JSON_parse :: "'n numbers \<Rightarrow> jsstring \<Rightarrow> js_error + 'n json" where
  "JSON_parse N text =
     (case parse_value N (Suc (2 * length text)) text of
        Inl err \<Rightarrow> Inl err
      | Inr (v, rest) \<Rightarrow> if skip_ws rest = [] then Inr v else Inl SyntaxError)"

subsection \<open>getJSON and fromJSON\<close>

text \<open>
  \<^verbatim>\<open>function getJSON(obj) { return JSON.stringify(obj); }\<close>
\<close>

definition getJSON :: "'n numbers \<Rightarrow> 'n json \<Rightarrow> jsstring" where
  "getJSON N obj = JSON_stringify N obj"

text \<open>
  The result of \<^verbatim>\<open>fromJSON\<close>: an object, which is its own properties and its prototype
  (of some type \<open>'p\<close> of prototype objects), or a primitive value.
\<close>

datatype ('n, 'p) jsvalue = Object "'n json" 'p | Primitive "'n json"

text \<open>
  \<^verbatim>\<open>Object.setPrototypeOf(O, proto)\<close>: \<^verbatim>\<open>RequireObjectCoercible(O)\<close> throws a TypeError
  for \<^verbatim>\<open>null\<close>; a value that is not an object is returned as it is; an object gets the
  prototype and is returned.
\<close>

fun Object_setPrototypeOf :: "'n json \<Rightarrow> 'p \<Rightarrow> js_error + ('n, 'p) jsvalue" where
  "Object_setPrototypeOf JNull proto = Inl TypeError"
| "Object_setPrototypeOf (JArr vs) proto = Inr (Object (JArr vs) proto)"
| "Object_setPrototypeOf (JObj kvs) proto = Inr (Object (JObj kvs) proto)"
| "Object_setPrototypeOf v proto = Inr (Primitive v)"

text \<open>
  \<^verbatim>\<open>function fromJSON(proto, json) { const object = JSON.parse(json); Object.setPrototypeOf(object, proto); return object; }\<close>
\<close>

definition fromJSON :: "'n numbers \<Rightarrow> 'p \<Rightarrow> jsstring \<Rightarrow> js_error + ('n, 'p) jsvalue" where
  "fromJSON N proto json =
     (case JSON_parse N json of
        Inl err \<Rightarrow> Inl err
      | Inr object \<Rightarrow> Object_setPrototypeOf object proto)"

subsection \<open>Values that survive the round trip\<close>

text \<open>Arrays and ordinary objects are the values \<^verbatim>\<open>typeof\<close> calls objects, null apart.\<close>

fun is_object :: "'n json \<Rightarrow> bool" where
  "is_object (JArr vs) = True"
| "is_object (JObj kvs) = True"
| "is_object v = False"

text \<open>The value with \<^verbatim>\<open>null\<close> in the place of every number that is not finite.\<close>

fun nulled :: "'n numbers \<Rightarrow> 'n json \<Rightarrow> 'n json" where
  "nulled N JNull = JNull"
| "nulled N (JBool b) = JBool b"
| "nulled N (JNum n) = (if isFinite N n then JNum n else JNull)"
| "nulled N (JStr s) = JStr s"
| "nulled N (JArr vs) = JArr (map (nulled N) vs)"
| "nulled N (JObj kvs) = JObj (map (\<lambda>(k, v). (k, nulled N v)) kvs)"

text \<open>
  The keys of an object as \<^verbatim>\<open>OrdinaryOwnPropertyKeys\<close> lists them: no key that is an array
  index comes after a key that is not, and the array indices ascend.
\<close>

fun key_ordered :: "jsstring list \<Rightarrow> bool" where
  "key_ordered (k # k' # ks) \<longleftrightarrow>
     (is_array_index k' \<longrightarrow> is_array_index k \<and> index_value k < index_value k') \<and>
     key_ordered (k' # ks)"
| "key_ordered ks \<longleftrightarrow> True"

text \<open>
  \<open>plain N v\<close>: the value \<open>v\<close> is well formed (code units are below \<open>2\<^sup>1\<^sup>6\<close>, the keys of
  an object are distinct and in the order of enumeration, which holds of every JavaScript
  value), and each of its numbers is finite, is written by \<^verbatim>\<open>Number::toString\<close> as a JSON
  number, and is read back from that text by \<^verbatim>\<open>StringToNumber\<close>.
\<close>

fun plain :: "'n numbers \<Rightarrow> 'n json \<Rightarrow> bool" where
  "plain N JNull = True"
| "plain N (JBool b) = True"
| "plain N (JNum n) =
     (isFinite N n \<and> number_grammar (Number_toString N n) \<and>
      StringToNumber N (Number_toString N n) = n)"
| "plain N (JStr s) = list_all (\<lambda>c. c < 65536) s"
| "plain N (JArr vs) = list_all (plain N) vs"
| "plain N (JObj kvs) =
     (distinct (map fst kvs) \<and> key_ordered (map fst kvs) \<and>
      list_all (\<lambda>kv. list_all (\<lambda>c. c < 65536) (fst kv) \<and> plain N (snd kv)) kvs)"

text \<open>Auxiliary notions for the proof of the round trip: what may follow a value in a JSON
  text, what may follow a number token, and the first character of a value's text.\<close>

definition token_end :: "jsstring \<Rightarrow> bool" where
  "token_end rest \<longleftrightarrow> rest = [] \<or> \<not> is_number_char (hd rest)"

definition delimited :: "jsstring \<Rightarrow> bool" where
  "delimited rest \<longleftrightarrow> rest = [] \<or> hd rest = 0x2C \<or> hd rest = 0x5D \<or> hd rest = 0x7D"

definition value_start :: "code_unit \<Rightarrow> bool" where
  "value_start c \<longleftrightarrow> \<not> is_ws c \<and> c \<noteq> 0x5D \<and> c \<noteq> 0x7D \<and> c \<noteq> 0x2C"

abbreviation member_text :: "'n numbers \<Rightarrow> jsstring \<times> 'n json \<Rightarrow> jsstring" where
  "member_text N \<equiv> (\<lambda>(k, v). QuoteJSONString k @ 0x3A # JSON_stringify N v)"

subsection \<open>A number type for examples\<close>

text \<open>
  To evaluate the functions above on concrete values the parameters need an instance. This one
  has the integers and \<^verbatim>\<open>NaN\<close>. An integer is written in decimal, which is what
  \<^verbatim>\<open>Number::toString\<close> does for the safe integers (magnitude at most \<open>2\<^sup>5\<^sup>3 - 1\<close>), and
  \<open>StringToNumber\<close> reads the integer part of a token, which is what JavaScript does for a
  token with no fraction and no exponent that denotes a safe integer. Outside this range the
  instance is not JavaScript's arithmetic. It is used in the examples only, on such
  numbers only: every lemma and theorem about the JSON functions is stated for arbitrary
  parameters.
\<close>

definition digit_char :: "nat \<Rightarrow> code_unit" where
  "digit_char d = 48 + d"

fun digits :: "nat \<Rightarrow> jsstring" where
  "digits n = (if n < 10 then [digit_char n] else digits (n div 10) @ [digit_char (n mod 10)])"

declare digits.simps [simp del]

definition digits_value :: "jsstring \<Rightarrow> int" where
  "digits_value ds = foldl (\<lambda>a c. 10 * a + int (c - 48)) 0 ds"

datatype number = Finite int | NaN

definition integers_with_NaN :: "number numbers" where
  "integers_with_NaN =
     \<lparr>isFinite = (\<lambda>n. case n of Finite i \<Rightarrow> True | NaN \<Rightarrow> False),
      Number_toString = (\<lambda>n. case n of
          Finite i \<Rightarrow> if i < 0 then 0x2D # digits (nat (- i)) else digits (nat i)
        | NaN \<Rightarrow> ascii ''NaN''),
      StringToNumber = (\<lambda>t. Finite (
          if t \<noteq> [] \<and> hd t = 0x2D then - digits_value (takeWhile is_digit (tl t))
          else digits_value (takeWhile is_digit t)))\<rparr>"

subsection \<open>class Selector\<close>

text \<open>
  \<^verbatim>\<open>this.selectors\<close> is an object literal with seven array-valued keys; insertion order
  is the order of \<^verbatim>\<open>Object.keys\<close> and \<^verbatim>\<open>Object.values\<close>.
\<close>

record selector =
  sel_element :: "string list"
  sel_id :: "string list"
  sel_class :: "string list"
  sel_attr :: "string list"
  sel_pseudoClass :: "string list"
  sel_pseudoElement :: "string list"
  sel_combination :: "string list"

definition new_Selector :: selector where
  "new_Selector = \<lparr>sel_element = [], sel_id = [], sel_class = [], sel_attr = [],
     sel_pseudoClass = [], sel_pseudoElement = [], sel_combination = []\<rparr>"

definition selectors_keys :: "string list" where
  "selectors_keys = [''element'', ''id'', ''class'', ''attr'', ''pseudoClass'',
     ''pseudoElement'', ''combination'']"

definition selectors_values :: "selector \<Rightarrow> string list list" where
  "selectors_values this = [sel_element this, sel_id this, sel_class this, sel_attr this,
     sel_pseudoClass this, sel_pseudoElement this, sel_combination this]"

text \<open>
  The two messages of \<^verbatim>\<open>this.errors\<close>; every \<^verbatim>\<open>throw new Error(...)\<close> of the class
  carries one of them.
\<close>

datatype error = DuplicateError | OrderError

fun error_message :: "error \<Rightarrow> string" where
  "error_message DuplicateError =
     ''Element, id and pseudo-element should not occur more then one time inside the selector''"
| "error_message OrderError =
     ''Selector parts should be arranged in the following order: element, id, class, attribute, pseudo-class, pseudo-element''"

text \<open>The outcome of a method call and the object's state after it.\<close>

type_synonym outcome = "(error + unit) \<times> selector"

definition checkOrder :: "selector \<Rightarrow> string \<Rightarrow> bool" where
  "checkOrder this sel =
     (let selectorIndex = indexOf selectors_keys sel;
          len = length (filter_indexed (\<lambda>elem index. length elem > 0 \<and> index > selectorIndex)
                  (selectors_values this))
      in len \<noteq> 0)"

definition Selector_element :: "string \<Rightarrow> selector \<Rightarrow> outcome" where
  "Selector_element v this =
     (if length (sel_element this) \<noteq> 0 then (Inl DuplicateError, this)
      else if checkOrder this ''element'' then (Inl OrderError, this)
      else (Inr (), this\<lparr>sel_element := sel_element this @ [v]\<rparr>))"

definition Selector_id :: "string \<Rightarrow> selector \<Rightarrow> outcome" where
  "Selector_id v this =
     (if length (sel_id this) \<noteq> 0 then (Inl DuplicateError, this)
      else if checkOrder this ''id'' then (Inl OrderError, this)
      else (Inr (), this\<lparr>sel_id := sel_id this @ [''#'' @ v]\<rparr>))"

definition Selector_class :: "string \<Rightarrow> selector \<Rightarrow> outcome" where
  "Selector_class v this =
     (if checkOrder this ''class'' then (Inl OrderError, this)
      else (Inr (), this\<lparr>sel_class := sel_class this @ [''.'' @ v]\<rparr>))"

definition Selector_attr :: "string \<Rightarrow> selector \<Rightarrow> outcome" where
  "Selector_attr v this =
     (if checkOrder this ''attr'' then (Inl OrderError, this)
      else (Inr (), this\<lparr>sel_attr := sel_attr this @ [''['' @ v @ '']'']\<rparr>))"

definition Selector_pseudoClass :: "string \<Rightarrow> selector \<Rightarrow> outcome" where
  "Selector_pseudoClass v this =
     (if checkOrder this ''pseudoClass'' then (Inl OrderError, this)
      else (Inr (), this\<lparr>sel_pseudoClass := sel_pseudoClass this @ ['':'' @ v]\<rparr>))"

definition Selector_pseudoElement :: "string \<Rightarrow> selector \<Rightarrow> outcome" where
  "Selector_pseudoElement v this =
     (if length (sel_pseudoElement this) \<noteq> 0 then (Inl DuplicateError, this)
      else if checkOrder this ''pseudoElement'' then (Inl OrderError, this)
      else (Inr (), this\<lparr>sel_pseudoElement := sel_pseudoElement this @ [''::'' @ v]\<rparr>))"

text \<open>
  \<^verbatim>\<open>Object.values(this.selectors).reduce((accumulator, currentValue) =>
    accumulator + currentValue.join(''))\<close>: \<^verbatim>\<open>reduce\<close> is called without an initial
  value, so the accumulator starts as the first value (the \<open>element\<close> array itself) and
  the callback runs on the other six. The object has seven keys, so the array of its
  values is never empty.
\<close>

definition Selector_stringify :: "selector \<Rightarrow> jsval" where
  "Selector_stringify this =
     (case selectors_values this of
        first # others \<Rightarrow>
          foldl (\<lambda>accumulator currentValue. plus_str accumulator (join [] currentValue))
            (Arr first) others)"

text \<open>\<open>stringify\<close> as a method call: the value returned and the state after the call.\<close>

definition Selector_stringify_call :: "selector \<Rightarrow> jsval \<times> selector" where
  "Selector_stringify_call this = (Selector_stringify this, this)"

subsection \<open>Categories: one name for the six writing methods\<close>

text \<open>
  The six writing methods differ only in the key they write, the text they store and
  whether they have the duplicate guard. \<open>call\<close> dispatches to the method itself.
\<close>

datatype category = Element | Id | Class | Attr | PseudoClass | PseudoElement

fun rank :: "category \<Rightarrow> nat" where
  "rank Element = 0"
| "rank Id = 1"
| "rank Class = 2"
| "rank Attr = 3"
| "rank PseudoClass = 4"
| "rank PseudoElement = 5"

fun key :: "category \<Rightarrow> string" where
  "key Element = ''element''"
| "key Id = ''id''"
| "key Class = ''class''"
| "key Attr = ''attr''"
| "key PseudoClass = ''pseudoClass''"
| "key PseudoElement = ''pseudoElement''"

fun fragments :: "selector \<Rightarrow> category \<Rightarrow> string list" where
  "fragments this Element = sel_element this"
| "fragments this Id = sel_id this"
| "fragments this Class = sel_class this"
| "fragments this Attr = sel_attr this"
| "fragments this PseudoClass = sel_pseudoClass this"
| "fragments this PseudoElement = sel_pseudoElement this"

fun call :: "category \<Rightarrow> string \<Rightarrow> selector \<Rightarrow> outcome" where
  "call Element = Selector_element"
| "call Id = Selector_id"
| "call Class = Selector_class"
| "call Attr = Selector_attr"
| "call PseudoClass = Selector_pseudoClass"
| "call PseudoElement = Selector_pseudoElement"

text \<open>The methods that start with the duplicate guard.\<close>

fun singleton :: "category \<Rightarrow> bool" where
  "singleton Element = True"
| "singleton Id = True"
| "singleton PseudoElement = True"
| "singleton _ = False"

text \<open>
  A chain \<^verbatim>\<open>s.m1(v1).m2(v2)...\<close>: the calls run in order and the first \<^verbatim>\<open>throw\<close> ends
  the chain.
\<close>

fun run :: "(category \<times> string) list \<Rightarrow> selector \<Rightarrow> outcome" where
  "run [] this = (Inr (), this)"
| "run ((c, v) # cs) this =
     (case call c v this of
        (Inl e, this') \<Rightarrow> (Inl e, this')
      | (Inr u, this') \<Rightarrow> run cs this')"

text \<open>
  The states a selector object can be in: any calls on a fresh object, where a caller
  that catches a rejection keeps the object and goes on calling.
\<close>

fun exec :: "selector \<Rightarrow> (category \<times> string) list \<Rightarrow> selector" where
  "exec this [] = this"
| "exec this ((c, v) # cs) = exec (snd (call c v this)) cs"

text \<open>
  The rendering the specification describes: for each category in canonical order the
  values written to it, in call order, each with the category's decoration, all
  concatenated with no separator.
\<close>

fun decorate :: "category \<Rightarrow> string \<Rightarrow> string" where
  "decorate Element v = v"
| "decorate Id v = ''#'' @ v"
| "decorate Class v = ''.'' @ v"
| "decorate Attr v = ''['' @ v @ '']''"
| "decorate PseudoClass v = '':'' @ v"
| "decorate PseudoElement v = ''::'' @ v"

definition canonical_order :: "category list" where
  "canonical_order = [Element, Id, Class, Attr, PseudoClass, PseudoElement]"

definition written :: "category \<Rightarrow> (category \<times> string) list \<Rightarrow> string list" where
  "written c calls = map snd (filter (\<lambda>p. fst p = c) calls)"

definition rendering :: "(category \<times> string) list \<Rightarrow> string" where
  "rendering calls = concat (map (\<lambda>c. concat (map (decorate c) (written c calls))) canonical_order)"

text \<open>
  The valid call sequences of the specification: the categories written are in
  non-decreasing canonical order, and \<open>element\<close>, \<open>id\<close> and \<open>pseudoElement\<close> are each written
  at most once.
\<close>

definition valid_calls :: "(category \<times> string) list \<Rightarrow> bool" where
  "valid_calls calls \<longleftrightarrow>
     sorted (map (\<lambda>p. rank (fst p)) calls) \<and>
     list_all (\<lambda>c. singleton c \<longrightarrow> length (written c calls) \<le> 1) canonical_order"

subsection \<open>The facade cssSelectorBuilder\<close>

text \<open>
  The object literal has methods only; \<^verbatim>\<open>this.result\<close> is absent until \<open>combine\<close>
  assigns it, and reading an absent property gives \<^verbatim>\<open>undefined\<close>.
\<close>

record facade =
  result :: jsval

definition cssSelectorBuilder :: facade where
  "cssSelectorBuilder = \<lparr>result = Undefined\<rparr>"

text \<open>
  The six factory methods run the method of the same name on a fresh selector and
  return that selector (or throw what it throws); they neither read nor write the facade.
\<close>

definition cssSelectorBuilder_element :: "string \<Rightarrow> facade \<Rightarrow> outcome \<times> facade" where
  "cssSelectorBuilder_element v this = (Selector_element v new_Selector, this)"

definition cssSelectorBuilder_id :: "string \<Rightarrow> facade \<Rightarrow> outcome \<times> facade" where
  "cssSelectorBuilder_id v this = (Selector_id v new_Selector, this)"

definition cssSelectorBuilder_class :: "string \<Rightarrow> facade \<Rightarrow> outcome \<times> facade" where
  "cssSelectorBuilder_class v this = (Selector_class v new_Selector, this)"

definition cssSelectorBuilder_attr :: "string \<Rightarrow> facade \<Rightarrow> outcome \<times> facade" where
  "cssSelectorBuilder_attr v this = (Selector_attr v new_Selector, this)"

definition cssSelectorBuilder_pseudoClass :: "string \<Rightarrow> facade \<Rightarrow> outcome \<times> facade" where
  "cssSelectorBuilder_pseudoClass v this = (Selector_pseudoClass v new_Selector, this)"

definition cssSelectorBuilder_pseudoElement :: "string \<Rightarrow> facade \<Rightarrow> outcome \<times> facade" where
  "cssSelectorBuilder_pseudoElement v this = (Selector_pseudoElement v new_Selector, this)"

text \<open>
  An argument of \<open>combine\<close> is an object with a \<open>stringify\<close> method: a selector, the
  facade itself (what an inner \<open>combine\<close> returned), or any other object, given by the
  value its \<open>stringify\<close> returns. The facade is one shared object, so an operand that is
  the facade reads the facade's current state.
\<close>

datatype operand = SelectorObj selector | FacadeObj | OtherObj jsval

definition cssSelectorBuilder_stringify :: "facade \<Rightarrow> jsval" where
  "cssSelectorBuilder_stringify this = result this"

fun operand_stringify :: "operand \<Rightarrow> facade \<Rightarrow> jsval" where
  "operand_stringify (SelectorObj s) this = Selector_stringify s"
| "operand_stringify FacadeObj this = cssSelectorBuilder_stringify this"
| "operand_stringify (OtherObj v) this = v"

text \<open>
  \<^verbatim>\<open>this.result = `${selector1.stringify()} ${combinator} ${selector2.stringify()}`;
    return this;\<close>
  The template is evaluated in full before the assignment. The state returned is the
  facade after the call, which is also the object returned.
\<close>

definition cssSelectorBuilder_combine :: "operand \<Rightarrow> string \<Rightarrow> operand \<Rightarrow> facade \<Rightarrow> facade" where
  "cssSelectorBuilder_combine selector1 combinator selector2 this =
     this\<lparr>result := Str (toString (operand_stringify selector1 this) @ '' '' @ combinator @ '' ''
        @ toString (operand_stringify selector2 this))\<rparr>"

text \<open>Calls on the facade, and the facade's state after each.\<close>

datatype facade_call =
    F_element string | F_id string | F_class string | F_attr string
  | F_pseudoClass string | F_pseudoElement string
  | F_combine operand string operand | F_stringify

fun facade_after :: "facade_call \<Rightarrow> facade \<Rightarrow> facade" where
  "facade_after (F_element v) this = snd (cssSelectorBuilder_element v this)"
| "facade_after (F_id v) this = snd (cssSelectorBuilder_id v this)"
| "facade_after (F_class v) this = snd (cssSelectorBuilder_class v this)"
| "facade_after (F_attr v) this = snd (cssSelectorBuilder_attr v this)"
| "facade_after (F_pseudoClass v) this = snd (cssSelectorBuilder_pseudoClass v this)"
| "facade_after (F_pseudoElement v) this = snd (cssSelectorBuilder_pseudoElement v this)"
| "facade_after (F_combine l c r) this = cssSelectorBuilder_combine l c r this"
| "facade_after F_stringify this = this"

fun is_combine :: "facade_call \<Rightarrow> bool" where
  "is_combine (F_combine l c r) = True"
| "is_combine _ = False"

fun facade_exec :: "facade \<Rightarrow> facade_call list \<Rightarrow> facade" where
  "facade_exec this [] = this"
| "facade_exec this (c # cs) = facade_exec (facade_after c this) cs"






section \<open>Properties\<close>

subsection \<open>Array helpers\<close>

lemma join_empty_sep: "join [] xs = concat xs"
proof (induction xs)
  case Nil
  show ?case by simp
next
  case (Cons x xs)
  then show ?case by (cases xs) simp_all
qed

lemma join_short: "length xs \<le> 1 \<Longrightarrow> join sep xs = concat xs"
proof (cases xs)
  case Nil
  then show ?thesis by simp
next
  case (Cons y ys)
  assume "length xs \<le> 1"
  with Cons have "ys = []" by simp
  with Cons show ?thesis by simp
qed

lemma ex_category:
  "(\<exists>d. P d) \<longleftrightarrow> P Element \<or> P Id \<or> P Class \<or> P Attr \<or> P PseudoClass \<or> P PseudoElement"
proof
  assume "\<exists>d. P d"
  then obtain d where "P d" ..
  then show "P Element \<or> P Id \<or> P Class \<or> P Attr \<or> P PseudoClass \<or> P PseudoElement"
    by (cases d) simp_all
qed auto

subsection \<open>The order check\<close>

lemma checkOrder_iff:
  "checkOrder this (key c) \<longleftrightarrow>
     (\<exists>d. rank c < rank d \<and> fragments this d \<noteq> []) \<or> sel_combination this \<noteq> []"
  by (cases c)
     (simp_all add: checkOrder_def indexOf_def filter_indexed_def selectors_keys_def
        selectors_values_def ex_category Let_def)

subsection \<open>What one writing call does\<close>

lemma call_fst:
  "fst (call c v this) =
     (if singleton c \<and> fragments this c \<noteq> [] then Inl DuplicateError
      else if checkOrder this (key c) then Inl OrderError
      else Inr ())"
  by (cases c)
     (simp_all add: Selector_element_def Selector_id_def Selector_class_def Selector_attr_def
        Selector_pseudoClass_def Selector_pseudoElement_def)

lemma call_rejected: "fst (call c v this) \<noteq> Inr () \<Longrightarrow> snd (call c v this) = this"
  by (cases c)
     (simp_all add: Selector_element_def Selector_id_def Selector_class_def Selector_attr_def
        Selector_pseudoClass_def Selector_pseudoElement_def split: if_splits)

lemma call_accepted:
  "fst (call c v this) = Inr () \<Longrightarrow>
     fragments (snd (call c v this)) d =
       (if d = c then fragments this c @ [decorate c v] else fragments this d)"
  by (cases c; cases d)
     (simp_all add: Selector_element_def Selector_id_def Selector_class_def Selector_attr_def
        Selector_pseudoClass_def Selector_pseudoElement_def split: if_splits)

lemma call_combination: "sel_combination (snd (call c v this)) = sel_combination this"
  by (cases c)
     (simp_all add: Selector_element_def Selector_id_def Selector_class_def Selector_attr_def
        Selector_pseudoClass_def Selector_pseudoElement_def)

lemma call_fragments_grow:
  "fragments this d \<noteq> [] \<Longrightarrow> fragments (snd (call c v this)) d \<noteq> []"
proof (cases "fst (call c v this) = Inr ()")
  case True
  assume "fragments this d \<noteq> []"
  with call_accepted[OF True, of d] show ?thesis by simp
next
  case False
  assume "fragments this d \<noteq> []"
  with call_rejected[OF False] show ?thesis by simp
qed

lemma call_singleton_bound:
  "singleton c \<Longrightarrow> length (fragments this c) \<le> 1 \<Longrightarrow>
     length (fragments (snd (call d v this)) c) \<le> 1"
proof (cases "fst (call d v this) = Inr ()")
  case True
  assume c: "singleton c" and le: "length (fragments this c) \<le> 1"
  show ?thesis
  proof (cases "c = d")
    case True
    with \<open>fst (call d v this) = Inr ()\<close> c have "fragments this c = []"
      by (simp add: call_fst split: if_splits)
    with call_accepted[OF \<open>fst (call d v this) = Inr ()\<close>, of c] True show ?thesis by simp
  next
    case False
    with call_accepted[OF \<open>fst (call d v this) = Inr ()\<close>, of c] le show ?thesis by simp
  qed
next
  case False
  assume "length (fragments this c) \<le> 1"
  with call_rejected[OF False] show ?thesis by simp
qed

subsection \<open>Reachable states\<close>

lemma exec_combination: "sel_combination (exec this cs) = sel_combination this"
  by (induction this cs rule: exec.induct) (simp_all add: call_combination)

lemma exec_fragments_grow: "fragments this d \<noteq> [] \<Longrightarrow> fragments (exec this cs) d \<noteq> []"
  by (induction this cs rule: exec.induct) (simp_all add: call_fragments_grow)

lemma exec_singleton_bound:
  "singleton c \<Longrightarrow> length (fragments this c) \<le> 1 \<Longrightarrow> length (fragments (exec this cs) c) \<le> 1"
proof (induction this cs rule: exec.induct)
  case (1 this)
  then show ?case by simp
next
  case (2 this d v cs)
  from call_singleton_bound[OF "2.prems"]
  have "length (fragments (snd (call d v this)) c) \<le> 1" .
  with "2.IH" "2.prems"(1) show ?case by simp
qed

lemma exec_append: "exec this (cs @ ds) = exec (exec this cs) ds"
  by (induction this cs rule: exec.induct) simp_all

lemma run_exec: "run cs this = (Inr (), this') \<Longrightarrow> this' = exec this cs"
proof (induction cs arbitrary: this)
  case Nil
  then show ?case by simp
next
  case (Cons p cs)
  obtain c v where p: "p = (c, v)" by (cases p)
  obtain r s where cv: "call c v this = (r, s)" by (cases "call c v this")
  from Cons.prems p cv obtain u where r: "r = Inr u" and rest: "run cs s = (Inr (), this')"
    by (cases r) simp_all
  from Cons.IH[OF rest] cv p show ?case by simp
qed

lemma run_fragments:
  "run cs this = (Inr (), this') \<Longrightarrow>
     fragments this' c = fragments this c @ map (decorate c) (written c cs)"
proof (induction cs arbitrary: this)
  case Nil
  then show ?case by (simp add: written_def)
next
  case (Cons p cs)
  obtain d v where p: "p = (d, v)" by (cases p)
  obtain r s where dv: "call d v this = (r, s)" by (cases "call d v this")
  from Cons.prems p dv obtain u where r: "r = Inr u" and rest: "run cs s = (Inr (), this')"
    by (cases r) simp_all
  from dv r have ok: "fst (call d v this) = Inr ()" by simp
  from call_accepted[OF ok, of c] dv
  have step: "fragments s c = (if c = d then fragments this d @ [decorate d v] else fragments this c)"
    by simp
  from Cons.IH[OF rest] step p show ?case by (simp add: written_def)
qed

subsection \<open>Rendering\<close>

lemma Selector_stringify_eq:
  "Selector_stringify this =
     Str (join '','' (sel_element this) @ concat (sel_id this) @ concat (sel_class this)
       @ concat (sel_attr this) @ concat (sel_pseudoClass this) @ concat (sel_pseudoElement this)
       @ concat (sel_combination this))"
  by (simp add: Selector_stringify_def selectors_values_def plus_str_def join_empty_sep)

lemma Selector_stringify_reachable:
  assumes "length (sel_element this) \<le> 1" and "sel_combination this = []"
  shows "Selector_stringify this =
     Str (concat (map (\<lambda>c. concat (fragments this c)) canonical_order))"
  using assms by (simp add: Selector_stringify_eq canonical_order_def join_short)

subsection \<open>Which chains are accepted\<close>

lemma all_category:
  "(\<forall>d. P d) \<longleftrightarrow> P Element \<and> P Id \<and> P Class \<and> P Attr \<and> P PseudoClass \<and> P PseudoElement"
proof
  assume r: "P Element \<and> P Id \<and> P Class \<and> P Attr \<and> P PseudoClass \<and> P PseudoElement"
  show "\<forall>d. P d"
  proof
    fix d
    from r show "P d" by (cases d) simp_all
  qed
qed simp

lemma run_Cons_fst:
  "fst (run ((c, v) # cs) this) = Inr () \<longleftrightarrow>
     fst (call c v this) = Inr () \<and> fst (run cs (snd (call c v this))) = Inr ()"
proof -
  obtain r s where cv: "call c v this = (r, s)" by (cases "call c v this")
  show ?thesis unfolding run.simps cv by (cases r) simp_all
qed

lemma written_Cons: "written k ((c, v) # cs) = (if c = k then v # written k cs else written k cs)"
  by (simp add: written_def)

lemma call_accepts_iff:
  assumes "sel_combination this = []"
  shows "fst (call c v this) = Inr () \<longleftrightarrow>
     \<not> (singleton c \<and> fragments this c \<noteq> []) \<and> (\<forall>d. fragments this d \<noteq> [] \<longrightarrow> rank d \<le> rank c)"
  using assms by (auto simp add: call_fst checkOrder_iff not_less)

lemma run_accepts_iff:
  assumes "sel_combination this = []"
  shows "fst (run calls this) = Inr () \<longleftrightarrow>
     sorted (map (\<lambda>p. rank (fst p)) calls) \<and>
     (\<forall>d. fragments this d \<noteq> [] \<longrightarrow> (\<forall>p\<in>set calls. rank d \<le> rank (fst p))) \<and>
     (\<forall>k. singleton k \<longrightarrow>
        length (written k calls) \<le> 1 \<and> (fragments this k \<noteq> [] \<longrightarrow> written k calls = []))"
  using assms
proof (induction calls arbitrary: this)
  case Nil
  show ?case by (simp add: written_def)
next
  case (Cons p cs)
  obtain c v where p: "p = (c, v)" by (cases p)
  let ?s = "snd (call c v this)"
  show ?case
  proof (cases "fst (call c v this) = Inr ()")
    case True
    have comb: "sel_combination ?s = []"
      using Cons.prems by (simp add: call_combination)
    have frag: "fragments ?s d \<noteq> [] \<longleftrightarrow> d = c \<or> fragments this d \<noteq> []" for d
      using call_accepted[OF True, of d] by simp
    from True Cons.prems
    have ok: "\<not> (singleton c \<and> fragments this c \<noteq> [])"
      and below: "\<forall>d. fragments this d \<noteq> [] \<longrightarrow> rank d \<le> rank c"
      by (simp_all add: call_accepts_iff)
    have "fst (run (p # cs) this) = Inr () \<longleftrightarrow> fst (run cs ?s) = Inr ()"
      unfolding p run_Cons_fst using True by simp
    also have "\<dots> \<longleftrightarrow>
       sorted (map (\<lambda>p. rank (fst p)) cs) \<and>
       (\<forall>d. (d = c \<or> fragments this d \<noteq> []) \<longrightarrow> (\<forall>q\<in>set cs. rank d \<le> rank (fst q))) \<and>
       (\<forall>k. singleton k \<longrightarrow>
          length (written k cs) \<le> 1 \<and> ((k = c \<or> fragments this k \<noteq> []) \<longrightarrow> written k cs = []))"
      using Cons.IH[OF comb] by (simp add: frag)
    also have "\<dots> \<longleftrightarrow>
       sorted (map (\<lambda>p. rank (fst p)) (p # cs)) \<and>
       (\<forall>d. fragments this d \<noteq> [] \<longrightarrow> (\<forall>q\<in>set (p # cs). rank d \<le> rank (fst q))) \<and>
       (\<forall>k. singleton k \<longrightarrow>
          length (written k (p # cs)) \<le> 1 \<and> (fragments this k \<noteq> [] \<longrightarrow> written k (p # cs) = []))"
      using ok below unfolding p by (auto simp add: written_Cons)
    finally show ?thesis .
  next
    case False
    with Cons.prems
    have why: "(singleton c \<and> fragments this c \<noteq> []) \<or> (\<exists>d. fragments this d \<noteq> [] \<and> rank c < rank d)"
      by (auto simp add: call_accepts_iff not_le)
    have "\<not> (sorted (map (\<lambda>p. rank (fst p)) (p # cs)) \<and>
       (\<forall>d. fragments this d \<noteq> [] \<longrightarrow> (\<forall>q\<in>set (p # cs). rank d \<le> rank (fst q))) \<and>
       (\<forall>k. singleton k \<longrightarrow>
          length (written k (p # cs)) \<le> 1 \<and> (fragments this k \<noteq> [] \<longrightarrow> written k (p # cs) = [])))"
      using why unfolding p by (auto simp add: written_Cons)
    moreover have "fst (run (p # cs) this) \<noteq> Inr ()"
      unfolding p run_Cons_fst using False by simp
    ultimately show ?thesis by blast
  qed
qed

lemma run_new_Selector_accepts: "fst (run calls new_Selector) = Inr () \<longleftrightarrow> valid_calls calls"
proof -
  have c: "sel_combination new_Selector = []"
    by (simp add: new_Selector_def)
  have f: "fragments new_Selector d = []" for d
    by (cases d) (simp_all add: new_Selector_def)
  show ?thesis
    unfolding run_accepts_iff[OF c] f
    by (simp add: valid_calls_def canonical_order_def all_category)
qed

subsection \<open>Nested combinations\<close>






subsection \<open>Escapes in string literals\<close>

lemma hex_value_hex_digit: "n < 16 \<Longrightarrow> hex_value (hex_digit n) = Some n"
  by (auto simp add: hex_value_def hex_digit_def)

lemma hex_digits_value:
  "4096 * (c div 4096) + 256 * (c div 256 mod 16) + 16 * (c div 16 mod 16) + c mod 16 = (c::nat)"
proof -
  have a: "c div 256 = c div 16 div 16" by (simp add: div_mult2_eq)
  have b: "c div 4096 = c div 256 div 16" by (simp add: div_mult2_eq)
  have "c = 16 * (c div 16) + c mod 16" by simp
  moreover have "c div 16 = 16 * (c div 256) + c div 16 mod 16" unfolding a by simp
  moreover have "c div 256 = 16 * (c div 4096) + c div 256 mod 16" unfolding b by simp
  ultimately show ?thesis by linarith
qed

lemma skip_ws_no_ws: "\<not> is_ws c \<Longrightarrow> skip_ws (c # cs) = c # cs"
  by (simp add: skip_ws_def)

lemma skip_ws_Nil: "skip_ws [] = []"
  by (simp add: skip_ws_def)

lemma parse_chars_UnicodeEscape:
  assumes "c < 65536"
  shows "parse_chars (UnicodeEscape c @ rest) =
     (case parse_chars rest of Inl err \<Rightarrow> Inl err | Inr (s, r) \<Rightarrow> Inr (c # s, r))"
proof -
  from assms have "c div 4096 < 16" by simp
  then have h1: "hex_value (hex_digit (c div 4096)) = Some (c div 4096)"
    by (rule hex_value_hex_digit)
  have h2: "hex_value (hex_digit (c div 256 mod 16)) = Some (c div 256 mod 16)"
    by (rule hex_value_hex_digit) simp
  have h3: "hex_value (hex_digit (c div 16 mod 16)) = Some (c div 16 mod 16)"
    by (rule hex_value_hex_digit) simp
  have h4: "hex_value (hex_digit (c mod 16)) = Some (c mod 16)"
    by (rule hex_value_hex_digit) simp
  show ?thesis
    by (simp add: UnicodeEscape_def h1 h2 h3 h4 hex_digits_value split: sum.splits)
qed

lemma parse_chars_raw:
  assumes "c \<noteq> 0x22" "c \<noteq> 0x5C" "\<not> c < 0x20"
  shows "parse_chars (c # rest) =
     (case parse_chars rest of Inl err \<Rightarrow> Inl err | Inr (s, r) \<Rightarrow> Inr (c # s, r))"
  using assms by simp

lemma parse_chars_short:
  "parse_chars (0x5C # 0x62 # rest) =
     (case parse_chars rest of Inl err \<Rightarrow> Inl err | Inr (s, r) \<Rightarrow> Inr (0x08 # s, r))"
  "parse_chars (0x5C # 0x74 # rest) =
     (case parse_chars rest of Inl err \<Rightarrow> Inl err | Inr (s, r) \<Rightarrow> Inr (0x09 # s, r))"
  "parse_chars (0x5C # 0x6E # rest) =
     (case parse_chars rest of Inl err \<Rightarrow> Inl err | Inr (s, r) \<Rightarrow> Inr (0x0A # s, r))"
  "parse_chars (0x5C # 0x66 # rest) =
     (case parse_chars rest of Inl err \<Rightarrow> Inl err | Inr (s, r) \<Rightarrow> Inr (0x0C # s, r))"
  "parse_chars (0x5C # 0x72 # rest) =
     (case parse_chars rest of Inl err \<Rightarrow> Inl err | Inr (s, r) \<Rightarrow> Inr (0x0D # s, r))"
  "parse_chars (0x5C # 0x22 # rest) =
     (case parse_chars rest of Inl err \<Rightarrow> Inl err | Inr (s, r) \<Rightarrow> Inr (0x22 # s, r))"
  "parse_chars (0x5C # 0x5C # rest) =
     (case parse_chars rest of Inl err \<Rightarrow> Inl err | Inr (s, r) \<Rightarrow> Inr (0x5C # s, r))"
  by (simp_all add: unescape_def)

subsection \<open>String literals: what is quoted is read back\<close>

lemma parse_chars_QuoteJSONUnit:
  assumes "c < 65536"
  shows "parse_chars (QuoteJSONUnit c @ rest) =
     (case parse_chars rest of Inl err \<Rightarrow> Inl err | Inr (s, r) \<Rightarrow> Inr (c # s, r))"
proof -
  consider (short) "c = 0x08 \<or> c = 0x09 \<or> c = 0x0A \<or> c = 0x0C \<or> c = 0x0D \<or> c = 0x22 \<or> c = 0x5C"
    | (control) "\<not> (c = 0x08 \<or> c = 0x09 \<or> c = 0x0A \<or> c = 0x0C \<or> c = 0x0D \<or> c = 0x22 \<or> c = 0x5C)"
        "c < 0x20"
    | (raw) "\<not> (c = 0x08 \<or> c = 0x09 \<or> c = 0x0A \<or> c = 0x0C \<or> c = 0x0D \<or> c = 0x22 \<or> c = 0x5C)"
        "\<not> c < 0x20"
    by blast
  then show ?thesis
  proof cases
    case short
    then show ?thesis
      by (elim disjE) (simp_all add: QuoteJSONUnit_def parse_chars_short del: parse_chars.simps split: sum.splits)
  next
    case control
    then have "QuoteJSONUnit c = UnicodeEscape c" by (simp add: QuoteJSONUnit_def)
    then show ?thesis by (simp only: parse_chars_UnicodeEscape[OF assms])
  next
    case raw
    then have "QuoteJSONUnit c = [c]" by (simp add: QuoteJSONUnit_def)
    then show ?thesis using raw by (simp add: parse_chars_raw del: parse_chars.simps)
  qed
qed

lemma surrogate_raw:
  "is_leading_surrogate c \<Longrightarrow> c \<noteq> 0x22 \<and> c \<noteq> 0x5C \<and> \<not> c < 0x20"
  "is_trailing_surrogate c \<Longrightarrow> c \<noteq> 0x22 \<and> c \<noteq> 0x5C \<and> \<not> c < 0x20"
  by (simp_all add: is_leading_surrogate_def is_trailing_surrogate_def)

lemma parse_chars_roundtrip:
  "list_all (\<lambda>c. c < 65536) s \<Longrightarrow> parse_chars (QuoteJSONChars s @ 0x22 # rest) = Inr (s, rest)"
proof (induction s rule: length_induct)
  case (1 s)
  show ?case
  proof (cases s)
    case Nil
    then show ?thesis by simp
  next
    case (Cons c cs)
    from "1.prems" Cons have c: "c < 65536" and cs: "list_all (\<lambda>c. c < 65536) cs" by simp_all
    from "1.IH" Cons cs
    have IH: "parse_chars (QuoteJSONChars cs @ 0x22 # rest) = Inr (cs, rest)" by simp
    consider (pair) d ds where "is_leading_surrogate c" "cs = d # ds" "is_trailing_surrogate d"
      | (lone) "is_leading_surrogate c" "cs = [] \<or> \<not> is_trailing_surrogate (hd cs)"
      | (trailing) "\<not> is_leading_surrogate c" "is_trailing_surrogate c"
      | (unit) "\<not> is_leading_surrogate c" "\<not> is_trailing_surrogate c"
      by (cases cs) auto
    then show ?thesis
    proof cases
      case pair
      from cs pair(2) have "list_all (\<lambda>c. c < 65536) ds" by simp
      with "1.IH" Cons pair(2)
      have IHd: "parse_chars (QuoteJSONChars ds @ 0x22 # rest) = Inr (ds, rest)" by simp
      have q: "QuoteJSONChars (c # cs) = c # d # QuoteJSONChars ds"
        using pair by simp
      show ?thesis
        unfolding Cons q
        using surrogate_raw(1)[OF pair(1)] surrogate_raw(2)[OF pair(3)] pair(2)
        by (simp add: parse_chars_raw IHd del: parse_chars.simps)
    next
      case lone
      then have q: "QuoteJSONChars (c # cs) = UnicodeEscape c @ QuoteJSONChars cs"
        by (cases cs) simp_all
      show ?thesis
        unfolding Cons q by (simp add: parse_chars_UnicodeEscape[OF c] IH del: parse_chars.simps)
    next
      case trailing
      then have q: "QuoteJSONChars (c # cs) = UnicodeEscape c @ QuoteJSONChars cs" by simp
      show ?thesis
        unfolding Cons q by (simp add: parse_chars_UnicodeEscape[OF c] IH del: parse_chars.simps)
    next
      case unit
      then have q: "QuoteJSONChars (c # cs) = QuoteJSONUnit c @ QuoteJSONChars cs" by simp
      show ?thesis
        unfolding Cons q by (simp add: parse_chars_QuoteJSONUnit[OF c] IH del: parse_chars.simps)
    qed
  qed
qed

subsection \<open>Number tokens\<close>

lemma is_digit_number_char: "is_digit c \<Longrightarrow> is_number_char c"
  by (simp add: is_number_char_def)

lemma takeWhile_digit_chars: "list_all is_number_char (takeWhile is_digit s)"
  by (induction s) (simp_all add: is_digit_number_char)

lemma takeWhile_nonempty: "takeWhile P xs \<noteq> [] \<Longrightarrow> xs \<noteq> [] \<and> P (hd xs)"
  by (cases xs) (auto split: if_splits)

lemma exponent_part_chars: "exponent_part r \<Longrightarrow> list_all is_number_char r"
proof (cases r)
  case Nil
  then show ?thesis by simp
next
  case (Cons e es)
  assume "exponent_part r"
  with Cons have e: "e = 0x65 \<or> e = 0x45"
    and ds: "list_all is_digit (if es \<noteq> [] \<and> (hd es = 0x2B \<or> hd es = 0x2D) then tl es else es)"
    by (auto simp add: exponent_part_def Let_def split: if_splits)
  from ds have "list_all is_number_char es"
    by (cases es) (auto simp add: list_all_iff is_digit_number_char is_number_char_def split: if_splits)
  with e Cons show ?thesis by (auto simp add: is_number_char_def)
qed

lemma fraction_part_chars: "fraction_part r \<Longrightarrow> list_all is_number_char r"
proof (cases "r \<noteq> [] \<and> hd r = 0x2E")
  case True
  assume "fraction_part r"
  with True have "exponent_part (dropWhile is_digit (tl r))" by (simp add: fraction_part_def)
  then have "list_all is_number_char (dropWhile is_digit (tl r))" by (rule exponent_part_chars)
  with takeWhile_digit_chars[of "tl r"]
  have "list_all is_number_char (takeWhile is_digit (tl r) @ dropWhile is_digit (tl r))"
    by (simp del: takeWhile_dropWhile_id)
  then have "list_all is_number_char (tl r)" by simp
  with True show ?thesis by (cases r) (simp_all add: is_number_char_def)
next
  case False
  assume "fraction_part r"
  with False have "exponent_part r" by (auto simp add: fraction_part_def)
  then show ?thesis by (rule exponent_part_chars)
qed

lemma number_grammar_start:
  assumes "number_grammar t"
  shows "t \<noteq> [] \<and> (hd t = 0x2D \<or> is_digit (hd t))"
proof -
  define unsigned where "unsigned = (if t \<noteq> [] \<and> hd t = 0x2D then tl t else t)"
  from assms have "takeWhile is_digit unsigned \<noteq> []"
    unfolding number_grammar_def Let_def unsigned_def by auto
  then have "unsigned \<noteq> [] \<and> is_digit (hd unsigned)" by (rule takeWhile_nonempty)
  then show ?thesis unfolding unsigned_def by (auto split: if_splits)
qed

lemma number_grammar_chars:
  assumes "number_grammar t"
  shows "list_all is_number_char t"
proof -
  define unsigned where "unsigned = (if t \<noteq> [] \<and> hd t = 0x2D then tl t else t)"
  from assms have "fraction_part (dropWhile is_digit unsigned)"
    unfolding number_grammar_def Let_def unsigned_def by simp
  then have "list_all is_number_char (dropWhile is_digit unsigned)" by (rule fraction_part_chars)
  with takeWhile_digit_chars[of unsigned]
  have "list_all is_number_char (takeWhile is_digit unsigned @ dropWhile is_digit unsigned)"
    by (simp del: takeWhile_dropWhile_id)
  then have "list_all is_number_char unsigned" by simp
  then show ?thesis
    unfolding unsigned_def by (cases t) (auto simp add: is_number_char_def split: if_splits)
qed

lemma parse_number_token:
  assumes "number_grammar t" and "token_end rest"
  shows "parse_number N (t @ rest) = Inr (JNum (StringToNumber N t), rest)"
proof -
  have chars: "\<forall>c\<in>set t. is_number_char c"
    using number_grammar_chars[OF assms(1)] by (simp add: list_all_iff)
  from assms(2) have r: "takeWhile is_number_char rest = []" "dropWhile is_number_char rest = rest"
    by (cases rest; simp add: token_end_def)+
  from chars r have "takeWhile is_number_char (t @ rest) = t"
    and "dropWhile is_number_char (t @ rest) = rest"
    by simp_all
  with assms(1) show ?thesis by (simp add: parse_number_def)
qed

subsection \<open>The round trip through JSON text\<close>

lemma delimited_token_end: "delimited rest \<Longrightarrow> token_end rest"
  by (auto simp add: delimited_def token_end_def is_number_char_def is_digit_def)

lemma delimited_skip_ws: "delimited rest \<Longrightarrow> skip_ws rest = rest"
  by (cases rest) (auto simp add: delimited_def skip_ws_def is_ws_def)

lemma delimited_Cons:
  "delimited (0x2C # r)" "delimited (0x5D # r)" "delimited (0x7D # r)" "delimited []"
  by (simp_all add: delimited_def)

lemma is_digit_facts:
  "is_digit c \<Longrightarrow> \<not> is_ws c \<and> c \<noteq> 0x22 \<and> c \<noteq> 0x5B \<and> c \<noteq> 0x7B
     \<and> c \<noteq> 0x5D \<and> c \<noteq> 0x7D \<and> c \<noteq> 0x2C"
  by (auto simp add: is_digit_def is_ws_def)

lemma starts_with_Cons: "starts_with c (d # ds) \<longleftrightarrow> d = c"
  by (auto simp add: starts_with_def)

lemma and_then_Inr: "and_then (Inr (x, r)) f = Inr (f x, r)"
  by (simp add: and_then_def)

lemma parse_value_JNum:
  assumes "number_grammar t" and "delimited rest"
  shows "parse_value N (Suc n) (t @ rest) = Inr (JNum (StringToNumber N t), rest)"
proof -
  from number_grammar_start[OF assms(1)]
  obtain c cs where t: "t = c # cs" and c: "c = 0x2D \<or> is_digit c"
    by (cases t) auto
  from c have nws: "\<not> is_ws c" and nb: "c \<noteq> 0x5B" "c \<noteq> 0x7B" "c \<noteq> 0x22"
    using is_digit_facts[of c] by (auto simp add: is_ws_def)
  have "parse_number N ((c # cs) @ rest) = Inr (JNum (StringToNumber N t), rest)"
    using parse_number_token[OF assms(1) delimited_token_end[OF assms(2)]] t by simp
  with nws nb c show ?thesis
    unfolding t by (auto simp add: skip_ws_no_ws starts_with_Cons parse_scalar_def)
qed

lemma parse_value_JStr:
  "list_all (\<lambda>c. c < 65536) s \<Longrightarrow>
     parse_value N (Suc n) (QuoteJSONString s @ rest) = Inr (JStr s, rest)"
  by (simp add: QuoteJSONString_def skip_ws_no_ws is_ws_def starts_with_Cons parse_scalar_def
      parse_chars_roundtrip del: parse_chars.simps)

lemma parse_value_literal:
  "parse_value N (Suc n) (ascii ''null'' @ rest) = Inr (JNull, rest)"
  "parse_value N (Suc n) (ascii ''true'' @ rest) = Inr (JBool True, rest)"
  "parse_value N (Suc n) (ascii ''false'' @ rest) = Inr (JBool False, rest)"
  by (simp_all add: ascii_def skip_ws_no_ws is_ws_def starts_with_Cons parse_scalar_def is_digit_def)

lemma parse_key_roundtrip:
  "list_all (\<lambda>c. c < 65536) k \<Longrightarrow>
     parse_key (QuoteJSONString k @ 0x3A # text) = Inr (k, text)"
  by (simp add: parse_key_def QuoteJSONString_def skip_ws_no_ws is_ws_def starts_with_Cons
      parse_chars_roundtrip del: parse_chars.simps)

lemma value_start_chars:
  "value_start 0x6E" "value_start 0x74" "value_start 0x66"
  "value_start 0x22" "value_start 0x5B" "value_start 0x7B" "value_start 0x2D"
  by (simp_all add: value_start_def is_ws_def)

lemma JSON_stringify_start:
  assumes "plain N v"
  shows "JSON_stringify N v \<noteq> [] \<and> value_start (hd (JSON_stringify N v))"
proof (cases v)
  case JNull
  then show ?thesis by (simp add: ascii_def value_start_chars)
next
  case (JBool b)
  then show ?thesis by (cases b) (simp_all add: ascii_def value_start_chars)
next
  case (JNum n)
  with assms have g: "number_grammar (Number_toString N n)" and f: "isFinite N n" by simp_all
  from number_grammar_start[OF g]
  have "value_start (hd (Number_toString N n))" and "Number_toString N n \<noteq> []"
    using is_digit_facts[of "hd (Number_toString N n)"] value_start_chars
    by (auto simp add: value_start_def)
  with JNum f show ?thesis by simp
next
  case (JStr s)
  then show ?thesis by (simp add: QuoteJSONString_def value_start_chars)
next
  case (JArr vs)
  then show ?thesis by (simp add: value_start_chars)
next
  case (JObj kvs)
  then show ?thesis by (simp add: value_start_chars)
qed

lemma key_ordered_before_index:
  "key_ordered (ks @ k # rest) \<Longrightarrow> is_array_index k \<Longrightarrow>
     \<forall>k' \<in> set ks. is_array_index k' \<and> index_value k' < index_value k"
proof (induction ks)
  case Nil
  show ?case by simp
next
  case (Cons a ks)
  show ?case
  proof (cases ks)
    case Nil
    with Cons.prems show ?thesis by simp
  next
    case (Cons b ks')
    with Cons.prems have ab: "is_array_index b \<longrightarrow> is_array_index a \<and> index_value a < index_value b"
      and tail: "key_ordered (ks @ k # rest)" by simp_all
    from Cons.IH[OF tail Cons.prems(2)]
    have all: "\<forall>k' \<in> set ks. is_array_index k' \<and> index_value k' < index_value k" .
    with Cons have "is_array_index b \<and> index_value b < index_value k" by simp
    with ab have "is_array_index a \<and> index_value a < index_value k" by auto
    with all show ?thesis by simp
  qed
qed

lemma CreateDataProperty_last:
  assumes "distinct (map fst (m @ [(k, v)]))" and "key_ordered (map fst (m @ (k, v) # rest))"
  shows "CreateDataProperty k v m = m @ [(k, v)]"
proof (cases "is_array_index k")
  case True
  from assms(2) have "key_ordered (map fst m @ k # map fst rest)" by simp
  from key_ordered_before_index[OF this True]
  have "\<forall>kv \<in> set m. precedes k kv" by (simp add: precedes_def)
  then have "takeWhile (precedes k) m = m" "dropWhile (precedes k) m = []" by simp_all
  with assms(1) True show ?thesis by (simp add: CreateDataProperty_def)
next
  case False
  with assms(1) show ?thesis by (simp add: CreateDataProperty_def)
qed

lemma CreateDataProperties_ordered_aux:
  "distinct (map fst (m @ kvs)) \<Longrightarrow> key_ordered (map fst (m @ kvs)) \<Longrightarrow>
     foldl (\<lambda>m (k, v). CreateDataProperty k v m) m kvs = m @ kvs"
proof (induction kvs arbitrary: m)
  case Nil
  show ?case by simp
next
  case (Cons kv kvs)
  obtain k v where kv: "kv = (k, v)" by (cases kv)
  from Cons.prems kv have "distinct (map fst (m @ [(k, v)]))" by simp
  moreover from Cons.prems kv have "key_ordered (map fst (m @ (k, v) # kvs))" by simp
  ultimately have step: "CreateDataProperty k v m = m @ [(k, v)]" by (rule CreateDataProperty_last)
  from Cons.prems kv have "distinct (map fst ((m @ [(k, v)]) @ kvs))"
    and "key_ordered (map fst ((m @ [(k, v)]) @ kvs))" by simp_all
  from Cons.IH[OF this] step kv show ?case by simp
qed

lemma CreateDataProperties_ordered:
  "distinct (map fst kvs) \<Longrightarrow> key_ordered (map fst kvs) \<Longrightarrow> CreateDataProperties kvs = kvs"
  using CreateDataProperties_ordered_aux[of "[]" kvs] by (simp add: CreateDataProperties_def)

lemma parse_elements_roundtrip:
  assumes IH: "\<And>v fuel rest. v \<in> set vs \<Longrightarrow> delimited rest \<Longrightarrow> length (JSON_stringify N v) < fuel
      \<Longrightarrow> parse_value N fuel (JSON_stringify N v @ rest) = Inr (v, rest)"
    and "vs \<noteq> []"
    and "length (join [0x2C] (map (JSON_stringify N) vs)) + 1 < fuel"
  shows "parse_elements N fuel (join [0x2C] (map (JSON_stringify N) vs) @ 0x5D # rest) = Inr (vs, rest)"
  using assms
proof (induction vs arbitrary: fuel)
  case Nil
  then show ?case by simp
next
  case (Cons v ws)
  from Cons.prems(3) obtain n where fuel: "fuel = Suc n" by (cases fuel) simp_all
  show ?case
  proof (cases ws)
    case Nil
    from Cons.prems(3) fuel Nil have len: "length (JSON_stringify N v) < n" by simp
    have "parse_value N n (JSON_stringify N v @ 0x5D # rest) = Inr (v, 0x5D # rest)"
      by (rule Cons.prems(1)) (simp_all add: len delimited_Cons)
    then show ?thesis
      unfolding fuel Nil
      by (simp add: delimited_skip_ws delimited_Cons starts_with_Cons)
  next
    case (Cons w ws')
    let ?tail = "join [0x2C] (map (JSON_stringify N) ws)"
    from Cons.prems(3) fuel Cons
    have len: "length (JSON_stringify N v) < n" and len': "length ?tail + 1 < n"
      by simp_all
    have v: "parse_value N n (JSON_stringify N v @ 0x2C # ?tail @ 0x5D # rest)
        = Inr (v, 0x2C # ?tail @ 0x5D # rest)"
      by (rule Cons.prems(1)) (simp_all add: len delimited_Cons)
    have "parse_elements N n (?tail @ 0x5D # rest) = Inr (ws, rest)"
      by (rule Cons.IH) (use Cons.prems(1) Cons len' in simp_all)
    with v show ?thesis
      unfolding fuel Cons
      by (simp add: delimited_skip_ws delimited_Cons starts_with_Cons and_then_Inr Cons)
  qed
qed

lemma parse_members_roundtrip:
  assumes IH: "\<And>kv fuel rest. kv \<in> set kvs \<Longrightarrow> delimited rest
      \<Longrightarrow> length (JSON_stringify N (snd kv)) < fuel
      \<Longrightarrow> parse_value N fuel (JSON_stringify N (snd kv) @ rest) = Inr (snd kv, rest)"
    and "kvs \<noteq> []"
    and "list_all (\<lambda>kv. list_all (\<lambda>c. c < 65536) (fst kv)) kvs"
    and "length (join [0x2C] (map (member_text N) kvs)) + 1 < fuel"
  shows "parse_members N fuel (join [0x2C] (map (member_text N) kvs) @ 0x7D # rest) = Inr (kvs, rest)"
  using assms
proof (induction kvs arbitrary: fuel)
  case Nil
  then show ?case by simp
next
  case (Cons kv ws)
  obtain k v where kv: "kv = (k, v)" by (cases kv)
  from Cons.prems(4) obtain n where fuel: "fuel = Suc n" by (cases fuel) simp_all
  from Cons.prems(3) kv have k: "list_all (\<lambda>c. c < 65536) k"
    and ks: "list_all (\<lambda>kv. list_all (\<lambda>c. c < 65536) (fst kv)) ws" by simp_all
  show ?case
  proof (cases ws)
    case Nil
    from Cons.prems(4) fuel Nil kv have len: "length (JSON_stringify N v) < n" by simp
    have "parse_value N n (JSON_stringify N (snd kv) @ 0x7D # rest) = Inr (snd kv, 0x7D # rest)"
      by (rule Cons.prems(1)) (simp_all add: len delimited_Cons kv)
    then show ?thesis
      unfolding fuel Nil kv
      by (simp add: parse_key_roundtrip[OF k] delimited_skip_ws delimited_Cons starts_with_Cons)
  next
    case (Cons w ws')
    let ?tail = "join [0x2C] (map (member_text N) ws)"
    from Cons.prems(4) fuel Cons kv
    have len: "length (JSON_stringify N v) < n" and len': "length ?tail + 1 < n"
      by simp_all
    have v: "parse_value N n (JSON_stringify N (snd kv) @ 0x2C # ?tail @ 0x7D # rest)
        = Inr (snd kv, 0x2C # ?tail @ 0x7D # rest)"
      by (rule Cons.prems(1)) (simp_all add: len delimited_Cons kv)
    have "parse_members N n (?tail @ 0x7D # rest) = Inr (ws, rest)"
      by (rule Cons.IH) (use Cons.prems(1) Cons len' ks in simp_all)
    with v show ?thesis
      unfolding fuel Cons kv
      by (simp add: parse_key_roundtrip[OF k] delimited_skip_ws delimited_Cons starts_with_Cons
          and_then_Inr Cons)
  qed
qed

lemma parse_value_roundtrip:
  "plain N v \<Longrightarrow> delimited rest \<Longrightarrow> length (JSON_stringify N v) < fuel
     \<Longrightarrow> parse_value N fuel (JSON_stringify N v @ rest) = Inr (v, rest)"
proof (induction v arbitrary: fuel rest)
  case JNull
  then obtain n where "fuel = Suc n" by (cases fuel) simp_all
  then show ?case using parse_value_literal(1)[of N n rest] by simp
next
  case (JBool b)
  then obtain n where "fuel = Suc n" by (cases fuel) simp_all
  then show ?case
    using parse_value_literal(2)[of N n rest] parse_value_literal(3)[of N n rest] by (cases b) simp_all
next
  case (JNum i)
  then obtain n where "fuel = Suc n" by (cases fuel) simp_all
  with JNum show ?case using parse_value_JNum[of "Number_toString N i" rest N n] by simp
next
  case (JStr s)
  then obtain n where "fuel = Suc n" by (cases fuel) simp_all
  with JStr show ?case using parse_value_JStr[of s N n rest] by simp
next
  case (JArr vs)
  from JArr.prems(3) obtain n where fuel: "fuel = Suc n" by (cases fuel) simp_all
  show ?case
  proof (cases "vs = []")
    case True
    then show ?thesis
      unfolding fuel
      by (simp add: skip_ws_no_ws is_ws_def starts_with_Cons)
  next
    case False
    let ?body = "join [0x2C] (map (JSON_stringify N) vs)"
    have IH: "parse_value N f (JSON_stringify N v @ r) = Inr (v, r)"
      if "v \<in> set vs" "delimited r" "length (JSON_stringify N v) < f" for v f r
      using JArr.IH[OF that(1) _ that(2,3)] JArr.prems(1) that(1) by (simp add: list_all_iff)
    from JArr.prems(3) fuel have "length ?body + 1 < n" by simp
    from parse_elements_roundtrip[OF IH False this, of rest]
    have elems: "parse_elements N n (?body @ 0x5D # rest) = Inr (vs, rest)" by simp
    obtain v ws where vs: "vs = v # ws" using False by (cases vs) auto
    from JArr.prems(1) vs have "plain N v" by simp
    from JSON_stringify_start[OF this]
    obtain c cs where c: "JSON_stringify N v = c # cs" and vc: "value_start c"
      by (cases "JSON_stringify N v") auto
    have body: "\<exists>bs. ?body = c # bs" using vs c by (cases ws) simp_all
    then obtain bs where bs: "?body = c # bs" ..
    from vc have "skip_ws (c # bs @ 0x5D # rest) = c # bs @ 0x5D # rest" and "c \<noteq> 0x5D"
      by (simp_all add: skip_ws_no_ws value_start_def)
    with elems show ?thesis
      unfolding fuel
      by (simp add: skip_ws_no_ws is_ws_def starts_with_Cons bs and_then_Inr)
  qed
next
  case (JObj kvs)
  from JObj.prems(3) obtain n where fuel: "fuel = Suc n" by (cases fuel) simp_all
  show ?case
  proof (cases "kvs = []")
    case True
    then show ?thesis
      unfolding fuel
      by (simp add: skip_ws_no_ws is_ws_def starts_with_Cons)
  next
    case False
    let ?body = "join [0x2C] (map (member_text N) kvs)"
    have IH: "parse_value N f (JSON_stringify N (snd kv) @ r) = Inr (snd kv, r)"
      if "kv \<in> set kvs" "delimited r" "length (JSON_stringify N (snd kv)) < f" for kv f r
    proof -
      from that(1) JObj.prems(1) have "plain N (snd kv)" by (simp add: list_all_iff)
      moreover have "snd kv \<in> Basic_BNFs.snds kv" by (cases kv) simp
      ultimately show ?thesis using JObj.IH[OF that(1) _ _ that(2,3)] by blast
    qed
    from JObj.prems(1) have keys: "list_all (\<lambda>kv. list_all (\<lambda>c. c < 65536) (fst kv)) kvs"
      by (simp add: list_all_iff)
    from JObj.prems(3) fuel have "length ?body + 1 < n" by simp
    from parse_members_roundtrip[OF IH False keys this, of rest]
    have members: "parse_members N n (?body @ 0x7D # rest) = Inr (kvs, rest)" by simp
    obtain kv ws where kvs: "kvs = kv # ws" using False by (cases kvs) auto
    obtain k v where kv: "kv = (k, v)" by (cases kv)
    have "\<exists>bs. ?body = 0x22 # bs" using kvs kv by (cases ws) (simp_all add: QuoteJSONString_def)
    then obtain bs where bs: "?body = 0x22 # bs" ..
    have "skip_ws (0x22 # bs @ 0x7D # rest) = 0x22 # bs @ 0x7D # rest"
      by (simp add: skip_ws_no_ws is_ws_def)
    moreover from JObj.prems(1) have "CreateDataProperties kvs = kvs"
      by (simp add: CreateDataProperties_ordered)
    ultimately show ?thesis
      using members unfolding fuel
      by (simp add: skip_ws_no_ws is_ws_def starts_with_Cons bs and_then_Inr)
  qed
qed

lemma JSON_roundtrip: "plain N v \<Longrightarrow> JSON_parse N (JSON_stringify N v) = Inr v"
  using parse_value_roundtrip[of N v "[]" "Suc (2 * length (JSON_stringify N v))"]
  by (simp add: JSON_parse_def delimited_Cons skip_ws_Nil)

subsection \<open>The recursion bound of the parser is never reached\<close>

lemma length_skip_ws: "length (skip_ws s) \<le> length s"
  by (simp add: skip_ws_def length_dropWhile_le)

lemma starts_with_length: "starts_with c s \<Longrightarrow> length (tl s) < length s"
  by (cases s) (simp_all add: starts_with_def)

lemma parse_chars_shorter: "parse_chars s = Inr (x, r) \<Longrightarrow> length r < length s"
proof (induction s arbitrary: x r rule: length_induct)
  case (1 s)
  show ?case
  proof (cases s)
    case Nil
    with "1.prems" show ?thesis by simp
  next
    case (Cons c cs)
    have IH: "length q < length cs" if "parse_chars t = Inr (y, q)" "length t \<le> length cs" for t y q
    proof -
      from that(2) Cons have "length t < length s" by simp
      with "1.IH" that(1) have "length q < length t" by blast
      with that(2) show ?thesis by simp
    qed
    from "1.prems" show ?thesis
      unfolding Cons
      by (auto split: if_splits list.splits option.splits sum.splits prod.splits dest!: IH)
  qed
qed

lemma dropWhile_shorter: "takeWhile P s \<noteq> [] \<Longrightarrow> length (dropWhile P s) < length s"
  by (cases s) (auto simp add: length_dropWhile_le le_imp_less_Suc split: if_splits)

lemma number_grammar_nonempty: "number_grammar t \<Longrightarrow> t \<noteq> []"
  using number_grammar_start by blast

lemma parse_number_shorter: "parse_number N s = Inr (v, r) \<Longrightarrow> length r < length s"
  by (auto simp add: parse_number_def Let_def dropWhile_shorter number_grammar_nonempty
      split: if_splits)

lemma parse_number_no_fuel: "parse_number N s \<noteq> Inl OutOfFuel"
  by (simp add: parse_number_def Let_def)

lemma parse_chars_no_fuel: "parse_chars s \<noteq> Inl OutOfFuel"
proof (induction s rule: length_induct)
  case (1 s)
  show ?case
  proof (cases s)
    case Nil
    then show ?thesis by simp
  next
    case (Cons c cs)
    have IH: False if "parse_chars t = Inl OutOfFuel" "length t \<le> length cs" for t
      using "1.IH" that Cons by simp
    show ?thesis
    proof
      assume "parse_chars s = Inl OutOfFuel"
      then show False
        unfolding Cons
        by (auto split: if_splits list.splits option.splits sum.splits prod.splits dest!: IH)
    qed
  qed
qed

lemma literal_shorter:
  assumes "take n t = ascii lit" and "length lit = n" and "0 < n"
  shows "length (drop n t) < length t"
proof -
  from assms(1) have "length (take n t) = length lit" by (simp add: ascii_def)
  with assms(2) have "n \<le> length t" by simp
  with assms(3) show ?thesis by simp
qed

lemma parse_scalar_shorter:
  assumes "parse_scalar N t = Inr (v, r)"
  shows "length r < length t"
proof -
  consider (str) "starts_with 0x22 t"
    | (num) "\<not> starts_with 0x22 t" "starts_with 0x2D t \<or> (t \<noteq> [] \<and> is_digit (hd t))"
    | (true) "\<not> starts_with 0x22 t" "\<not> (starts_with 0x2D t \<or> (t \<noteq> [] \<and> is_digit (hd t)))"
        "take 4 t = ascii ''true''"
    | (false) "\<not> starts_with 0x22 t" "\<not> (starts_with 0x2D t \<or> (t \<noteq> [] \<and> is_digit (hd t)))"
        "take 4 t \<noteq> ascii ''true''" "take 5 t = ascii ''false''"
    | (null) "\<not> starts_with 0x22 t" "\<not> (starts_with 0x2D t \<or> (t \<noteq> [] \<and> is_digit (hd t)))"
        "take 4 t \<noteq> ascii ''true''" "take 5 t \<noteq> ascii ''false''" "take 4 t = ascii ''null''"
    | (none) "\<not> starts_with 0x22 t" "\<not> (starts_with 0x2D t \<or> (t \<noteq> [] \<and> is_digit (hd t)))"
        "take 4 t \<noteq> ascii ''true''" "take 5 t \<noteq> ascii ''false''" "take 4 t \<noteq> ascii ''null''"
    by blast
  then show ?thesis
  proof cases
    case str
    with assms obtain s where "parse_chars (tl t) = Inr (s, r)"
      by (simp add: parse_scalar_def split: sum.splits prod.splits)
    from parse_chars_shorter[OF this] starts_with_length[OF str] show ?thesis by simp
  next
    case num
    with assms have "parse_number N t = Inr (v, r)" by (simp add: parse_scalar_def)
    then show ?thesis by (rule parse_number_shorter)
  next
    case true
    with assms have "r = drop 4 t" by (simp add: parse_scalar_def)
    with literal_shorter[OF true(3)] show ?thesis by simp
  next
    case false
    with assms have "r = drop 5 t" by (simp add: parse_scalar_def)
    with literal_shorter[OF false(4)] show ?thesis by simp
  next
    case null
    with assms have "r = drop 4 t" by (simp add: parse_scalar_def)
    with literal_shorter[OF null(5)] show ?thesis by simp
  next
    case none
    with assms show ?thesis by (simp add: parse_scalar_def)
  qed
qed

lemma parse_scalar_no_fuel: "parse_scalar N t \<noteq> Inl OutOfFuel"
proof (cases "starts_with 0x22 t")
  case True
  with parse_chars_no_fuel[of "tl t"] show ?thesis
    by (auto simp add: parse_scalar_def split: sum.splits prod.splits)
next
  case False
  with parse_number_no_fuel[of N t] show ?thesis
    by (simp add: parse_scalar_def)
qed

lemma parse_key_shorter:
  assumes "parse_key s = Inr (k, r)"
  shows "length r < length s"
proof -
  from assms have s: "starts_with 0x22 (skip_ws s)"
    by (simp add: parse_key_def split: if_splits)
  with assms obtain q where q: "parse_chars (tl (skip_ws s)) = Inr (k, q)"
    and c: "starts_with 0x3A (skip_ws q)" and r: "r = tl (skip_ws q)"
    by (simp add: parse_key_def split: if_splits sum.splits prod.splits)
  from parse_chars_shorter[OF q] starts_with_length[OF s] starts_with_length[OF c]
    length_skip_ws[of s] length_skip_ws[of q] r
  show ?thesis by simp
qed

lemma parse_key_no_fuel: "parse_key s \<noteq> Inl OutOfFuel"
proof (cases "starts_with 0x22 (skip_ws s)")
  case True
  with parse_chars_no_fuel[of "tl (skip_ws s)"] show ?thesis
    by (auto simp add: parse_key_def split: sum.splits prod.splits)
next
  case False
  then show ?thesis by (simp add: parse_key_def)
qed

lemma and_then_Inr_iff:
  "and_then p f = Inr (y, r) \<longleftrightarrow> (\<exists>x. p = Inr (x, r) \<and> y = f x)"
  by (auto simp add: and_then_def split: sum.splits prod.splits)

lemma and_then_Inl_iff: "and_then p f = Inl e \<longleftrightarrow> p = Inl e"
  by (auto simp add: and_then_def split: sum.splits prod.splits)

lemma tl_skip_ws_shorter: "starts_with c (skip_ws s) \<Longrightarrow> length (tl (skip_ws s)) < length s"
  using starts_with_length[of c "skip_ws s"] length_skip_ws[of s] by simp

lemma parsers_shorter:
  "(\<forall>s v r. parse_value N n s = Inr (v, r) \<longrightarrow> length r < length s) \<and>
   (\<forall>s vs r. parse_elements N n s = Inr (vs, r) \<longrightarrow> length r < length s) \<and>
   (\<forall>s kvs r. parse_members N n s = Inr (kvs, r) \<longrightarrow> length r < length s)"
proof (induction n)
  case 0
  show ?case by simp
next
  case (Suc n)
  from Suc have V: "parse_value N n s = Inr (v, r) \<Longrightarrow> length r < length s" for s v r by blast
  from Suc have E: "parse_elements N n s = Inr (vs, r) \<Longrightarrow> length r < length s" for s vs r by blast
  from Suc have M: "parse_members N n s = Inr (kvs, r) \<Longrightarrow> length r < length s" for s kvs r by blast
  have val: "length r < length s" if a: "parse_value N (Suc n) s = Inr (v, r)" for s v r
  proof -
    let ?t = "skip_ws s"
    consider (arr) "starts_with 0x5B ?t"
      | (obj) "\<not> starts_with 0x5B ?t" "starts_with 0x7B ?t"
      | (scalar) "\<not> starts_with 0x5B ?t" "\<not> starts_with 0x7B ?t"
      by blast
    then show ?thesis
    proof cases
      case arr
      show ?thesis
      proof (cases "starts_with 0x5D (skip_ws (tl ?t))")
        case True
        with a arr have "r = tl (skip_ws (tl ?t))" by simp
        with tl_skip_ws_shorter[OF True] tl_skip_ws_shorter[OF arr] show ?thesis by simp
      next
        case False
        with a arr obtain vs where "parse_elements N n (tl ?t) = Inr (vs, r)"
          by (auto simp add: and_then_Inr_iff)
        from E[OF this] tl_skip_ws_shorter[OF arr] show ?thesis by simp
      qed
    next
      case obj
      show ?thesis
      proof (cases "starts_with 0x7D (skip_ws (tl ?t))")
        case True
        with a obj have "r = tl (skip_ws (tl ?t))" by simp
        with tl_skip_ws_shorter[OF True] tl_skip_ws_shorter[OF obj(2)] show ?thesis by simp
      next
        case False
        with a obj obtain kvs where "parse_members N n (tl ?t) = Inr (kvs, r)"
          by (auto simp add: and_then_Inr_iff)
        from M[OF this] tl_skip_ws_shorter[OF obj(2)] show ?thesis by simp
      qed
    next
      case scalar
      with a have "parse_scalar N ?t = Inr (v, r)" by simp
      from parse_scalar_shorter[OF this] length_skip_ws[of s] show ?thesis by simp
    qed
  qed
  have elems: "length r < length s" if a: "parse_elements N (Suc n) s = Inr (vs, r)" for s vs r
  proof -
    from a obtain v q where v: "parse_value N n s = Inr (v, q)"
      by (auto split: sum.splits prod.splits)
    note q = V[OF v]
    consider (more) "starts_with 0x2C (skip_ws q)"
      | (last) "\<not> starts_with 0x2C (skip_ws q)" "starts_with 0x5D (skip_ws q)"
      | (bad) "\<not> starts_with 0x2C (skip_ws q)" "\<not> starts_with 0x5D (skip_ws q)"
      by blast
    then show ?thesis
    proof cases
      case more
      with a v obtain ws where "parse_elements N n (tl (skip_ws q)) = Inr (ws, r)"
        by (auto simp add: and_then_Inr_iff)
      from E[OF this] tl_skip_ws_shorter[OF more] q show ?thesis by simp
    next
      case last
      with a v have "r = tl (skip_ws q)" by simp
      with tl_skip_ws_shorter[OF last(2)] q show ?thesis by simp
    next
      case bad
      with a v show ?thesis by simp
    qed
  qed
  have membs: "length r < length s" if a: "parse_members N (Suc n) s = Inr (kvs, r)" for s kvs r
  proof -
    from a obtain k p where k: "parse_key s = Inr (k, p)"
      by (auto split: sum.splits prod.splits)
    with a obtain v q where v: "parse_value N n p = Inr (v, q)"
      by (auto split: sum.splits prod.splits)
    note p = parse_key_shorter[OF k]
    note q = V[OF v]
    consider (more) "starts_with 0x2C (skip_ws q)"
      | (last) "\<not> starts_with 0x2C (skip_ws q)" "starts_with 0x7D (skip_ws q)"
      | (bad) "\<not> starts_with 0x2C (skip_ws q)" "\<not> starts_with 0x7D (skip_ws q)"
      by blast
    then show ?thesis
    proof cases
      case more
      with a k v obtain ws where "parse_members N n (tl (skip_ws q)) = Inr (ws, r)"
        by (auto simp add: and_then_Inr_iff)
      from M[OF this] tl_skip_ws_shorter[OF more] p q show ?thesis by simp
    next
      case last
      with a k v have "r = tl (skip_ws q)" by simp
      with tl_skip_ws_shorter[OF last(2)] p q show ?thesis by simp
    next
      case bad
      with a k v show ?thesis by simp
    qed
  qed
  from val elems membs show ?case by blast
qed

lemma parse_value_shorter: "parse_value N n s = Inr (v, r) \<Longrightarrow> length r < length s"
  using parsers_shorter[of N n] by blast

lemma parsers_fuel:
  "(\<forall>s. parse_value N n s = Inl OutOfFuel \<longrightarrow> n \<le> 2 * length s) \<and>
   (\<forall>s. parse_elements N n s = Inl OutOfFuel \<longrightarrow> n \<le> 2 * length s + 1) \<and>
   (\<forall>s. parse_members N n s = Inl OutOfFuel \<longrightarrow> n \<le> 2 * length s + 1)"
proof (induction n)
  case 0
  show ?case by simp
next
  case (Suc n)
  from Suc have V: "parse_value N n s = Inl OutOfFuel \<Longrightarrow> n \<le> 2 * length s" for s by blast
  from Suc have E: "parse_elements N n s = Inl OutOfFuel \<Longrightarrow> n \<le> 2 * length s + 1" for s by blast
  from Suc have M: "parse_members N n s = Inl OutOfFuel \<Longrightarrow> n \<le> 2 * length s + 1" for s by blast
  have val: "Suc n \<le> 2 * length s" if a: "parse_value N (Suc n) s = Inl OutOfFuel" for s
  proof -
    let ?t = "skip_ws s"
    consider (arr) "starts_with 0x5B ?t"
      | (obj) "\<not> starts_with 0x5B ?t" "starts_with 0x7B ?t"
      | (scalar) "\<not> starts_with 0x5B ?t" "\<not> starts_with 0x7B ?t"
      by blast
    then show ?thesis
    proof cases
      case arr
      with a have "parse_elements N n (tl ?t) = Inl OutOfFuel"
        by (auto simp add: and_then_Inl_iff split: if_splits)
      from E[OF this] tl_skip_ws_shorter[OF arr] show ?thesis by simp
    next
      case obj
      with a have "parse_members N n (tl ?t) = Inl OutOfFuel"
        by (auto simp add: and_then_Inl_iff split: if_splits)
      from M[OF this] tl_skip_ws_shorter[OF obj(2)] show ?thesis by simp
    next
      case scalar
      with a parse_scalar_no_fuel[of N ?t] show ?thesis by simp
    qed
  qed
  have elems: "Suc n \<le> 2 * length s + 1" if a: "parse_elements N (Suc n) s = Inl OutOfFuel" for s
  proof (cases "parse_value N n s")
    case (Inl e)
    with a have "parse_value N n s = Inl OutOfFuel" by simp
    from V[OF this] show ?thesis by simp
  next
    case (Inr p)
    obtain v q where p: "p = (v, q)" by (cases p)
    from Inr p have v: "parse_value N n s = Inr (v, q)" by simp
    note q = parse_value_shorter[OF v]
    from a v have more: "starts_with 0x2C (skip_ws q)"
      and "parse_elements N n (tl (skip_ws q)) = Inl OutOfFuel"
      by (auto simp add: and_then_Inl_iff split: if_splits)
    from E[OF this(2)] tl_skip_ws_shorter[OF more] q show ?thesis by simp
  qed
  have membs: "Suc n \<le> 2 * length s + 1" if a: "parse_members N (Suc n) s = Inl OutOfFuel" for s
  proof (cases "parse_key s")
    case (Inl e)
    with a parse_key_no_fuel[of s] show ?thesis by simp
  next
    case (Inr kp)
    obtain k p where kp: "kp = (k, p)" by (cases kp)
    from Inr kp have k: "parse_key s = Inr (k, p)" by simp
    note p = parse_key_shorter[OF k]
    show ?thesis
    proof (cases "parse_value N n p")
      case (Inl e)
      with a k have "parse_value N n p = Inl OutOfFuel" by simp
      from V[OF this] p show ?thesis by simp
    next
      case (Inr vq)
      obtain v q where vq: "vq = (v, q)" by (cases vq)
      from Inr vq have v: "parse_value N n p = Inr (v, q)" by simp
      note q = parse_value_shorter[OF v]
      from a k v have more: "starts_with 0x2C (skip_ws q)"
        and "parse_members N n (tl (skip_ws q)) = Inl OutOfFuel"
        by (auto simp add: and_then_Inl_iff split: if_splits)
      from M[OF this(2)] tl_skip_ws_shorter[OF more] p q show ?thesis by simp
    qed
  qed
  from val elems membs show ?case by blast
qed

lemma JSON_parse_fuel: "JSON_parse N text \<noteq> Inl OutOfFuel"
proof
  assume a: "JSON_parse N text = Inl OutOfFuel"
  then have "parse_value N (Suc (2 * length text)) text = Inl OutOfFuel"
    by (auto simp add: JSON_parse_def split: sum.splits prod.splits if_splits)
  with parsers_fuel[of N "Suc (2 * length text)"] show False by auto
qed

subsection \<open>Non-finite numbers and the examples\<close>

lemma JSON_stringify_nulled: "JSON_stringify N (nulled N v) = JSON_stringify N v"
proof (induction v)
  case (JArr vs)
  have "map (JSON_stringify N \<circ> nulled N) vs = map (JSON_stringify N) vs"
    using JArr.IH by (intro map_cong) simp_all
  then show ?case by (simp only: nulled.simps JSON_stringify.simps map_map)
next
  case (JObj kvs)
  have "map (member_text N \<circ> (\<lambda>(k, v). (k, nulled N v))) kvs = map (member_text N) kvs"
  proof (intro map_cong refl)
    fix kv assume kv: "kv \<in> set kvs"
    obtain k v where p: "kv = (k, v)" by (cases kv)
    with kv JObj[of kv v] show "(member_text N \<circ> (\<lambda>(k, v). (k, nulled N v))) kv = member_text N kv"
      by simp
  qed
  then show ?case by (simp only: nulled.simps JSON_stringify.simps map_map)
qed simp_all

lemma plain_nulled: "plain N v \<Longrightarrow> nulled N v = v"
proof (induction v)
  case (JArr vs)
  have "map (nulled N) vs = map id vs"
    using JArr.IH JArr.prems by (intro map_cong) (simp_all add: list_all_iff)
  then show ?case by (simp only: nulled.simps list.map_id)
next
  case (JObj kvs)
  have "map (\<lambda>(k, v). (k, nulled N v)) kvs = map id kvs"
  proof (intro map_cong refl)
    fix kv assume kv: "kv \<in> set kvs"
    obtain k v where p: "kv = (k, v)" by (cases kv)
    with kv JObj.prems have "plain N v" by (auto simp add: list_all_iff)
    with kv p JObj.IH[of kv v] show "(case kv of (k, v) \<Rightarrow> (k, nulled N v)) = id kv" by simp
  qed
  then show ?case by (simp only: nulled.simps list.map_id)
qed simp_all

lemma is_object_nulled: "is_object (nulled N v) = is_object v"
  by (cases v) simp_all

lemma digits_10: "digits 10 = [0x31, 0x30]"
  by (subst digits.simps, simp, subst digits.simps, simp add: digit_char_def)

lemma digits_20: "digits 20 = [0x32, 0x30]"
  by (subst digits.simps, simp, subst digits.simps, simp add: digit_char_def)

lemma decimal_ten: "plain integers_with_NaN (JNum (Finite 10))" "plain integers_with_NaN (JNum (Finite (- 20)))"
  by (simp_all add: integers_with_NaN_def digits_10 digits_20 number_grammar_def fraction_part_def
      exponent_part_def is_digit_def digits_value_def)

lemma plain_samples:
  "plain integers_with_NaN (JObj [(ascii ''radius'', JNum (Finite 10))])"
  "plain integers_with_NaN
     (JArr [JNull, JStr [0xD83D, 0xDE00, 0xDC00, 0x0A],
            JObj [(ascii ''7'', JBool True), (ascii ''b'', JNum (Finite (- 20)))]])"
  "plain integers_with_NaN (JStr (ascii ''a\"b''))"
  using decimal_ten by (simp_all add: ascii_def is_array_index_def is_digit_def index_value_def)

lemmas method_defs =
  Selector_element_def Selector_id_def Selector_class_def Selector_attr_def
  Selector_pseudoClass_def Selector_pseudoElement_def

lemmas order_defs =
  checkOrder_def indexOf_def filter_indexed_def selectors_keys_def selectors_values_def

section \<open>The claims\<close>

subsection \<open>C7: Rectangle\<close>

text \<open>
  Claim C7. For all values \<open>w\<close> and \<open>h\<close>, the object constructed by \<open>Rectangle(w, h)\<close> has
  width \<open>w\<close>, height \<open>h\<close>, and \<open>getArea()\<close> returns \<open>w * h\<close>, whatever multiplication the
  values carry.
\<close>

theorem Rectangle_fields_and_area:
  "width (Rectangle w h) = w \<and> height (Rectangle w h) = h \<and> getArea (Rectangle w h) = w * h"
  by (simp add: Rectangle_def getArea_def)

subsection \<open>C8: rendering is repeatable\<close>

text \<open>
  Claim C8. For every builder state, \<open>stringify()\<close> leaves the stored fragments as they
  were, and a second \<open>stringify()\<close> right after the first returns the same string.
\<close>

theorem stringify_twice:
  "snd (Selector_stringify_call this) = this \<and>
   fst (Selector_stringify_call (snd (Selector_stringify_call this))) =
     fst (Selector_stringify_call this) \<and>
   (\<exists>text. fst (Selector_stringify_call this) = Str text)"
  by (simp add: Selector_stringify_call_def Selector_stringify_eq)

subsection \<open>C5: a rejected call changes nothing\<close>

text \<open>
  Claim C5. For every builder state and every writing call that is rejected (with
  \<open>DuplicateError\<close> or \<open>OrderError\<close>), the state after the call is the state before it:
  both guards run before the push.
\<close>

theorem rejected_call_keeps_state:
  "fst (call c v this) = Inl e \<Longrightarrow>
     snd (call c v this) = this \<and> (\<forall>d. fragments (snd (call c v this)) d = fragments this d)"
proof -
  assume "fst (call c v this) = Inl e"
  then have "fst (call c v this) \<noteq> Inr ()" by simp
  then have "snd (call c v this) = this" by (rule call_rejected)
  then show ?thesis by simp
qed

theorem rejected_call_keeps_state_witness:
  "fst (call Element ''div'' (snd (call Element ''table'' new_Selector))) = Inl DuplicateError \<and>
   snd (call Element ''div'' (snd (call Element ''table'' new_Selector)))
     = snd (call Element ''table'' new_Selector) \<and>
   fst (call Id ''id'' (snd (call Class ''main'' new_Selector))) = Inl OrderError \<and>
   snd (call Id ''id'' (snd (call Class ''main'' new_Selector)))
     = snd (call Class ''main'' new_Selector)"
proof -
  have d: "fst (call Element ''div'' (snd (call Element ''table'' new_Selector))) = Inl DuplicateError"
    by (simp add: method_defs order_defs new_Selector_def)
  have o: "fst (call Id ''id'' (snd (call Class ''main'' new_Selector))) = Inl OrderError"
    by (simp add: method_defs order_defs new_Selector_def)
  from d o rejected_call_keeps_state[OF d] rejected_call_keeps_state[OF o] show ?thesis
    by blast
qed

subsection \<open>C3: the duplicate guard\<close>

text \<open>
  Claim C3. \<open>element\<close>, \<open>id\<close> and \<open>pseudoElement\<close> raise \<open>DuplicateError\<close> whenever their own
  category already holds a fragment, so a second \<open>element\<close> after an accepted one raises
  \<open>DuplicateError\<close>; \<open>class\<close>, \<open>attr\<close> and \<open>pseudoClass\<close> never raise \<open>DuplicateError\<close>, and
  once one of them has been accepted it is accepted again any number of times in a row.
\<close>

theorem duplicate_guard:
  "(sel_element this \<noteq> [] \<longrightarrow> Selector_element v this = (Inl DuplicateError, this)) \<and>
   (sel_id this \<noteq> [] \<longrightarrow> Selector_id v this = (Inl DuplicateError, this)) \<and>
   (sel_pseudoElement this \<noteq> [] \<longrightarrow> Selector_pseudoElement v this = (Inl DuplicateError, this)) \<and>
   (fst (Selector_element v this) = Inr () \<longrightarrow>
      fst (Selector_element w (snd (Selector_element v this))) = Inl DuplicateError) \<and>
   fst (Selector_class v this) \<noteq> Inl DuplicateError \<and>
   fst (Selector_attr v this) \<noteq> Inl DuplicateError \<and>
   fst (Selector_pseudoClass v this) \<noteq> Inl DuplicateError \<and>
   (\<not> singleton c \<and> fst (call c v this) = Inr () \<longrightarrow>
      fst (run (map (Pair c) vs) (snd (call c v this))) = Inr ())"
proof -
  have repeat: "fst (run (map (Pair c) vs) s) = Inr ()"
    if "\<not> singleton c" and "\<not> checkOrder s (key c)" for s
    using that
  proof (induction vs arbitrary: s)
    case Nil
    show ?case by simp
  next
    case (Cons x xs)
    from Cons.prems have ok: "fst (call c x s) = Inr ()" by (simp add: call_fst)
    have later: "fragments (snd (call c x s)) d = fragments s d" if "rank c < rank d" for d
      using call_accepted[OF ok, of d] that by auto
    have "sel_combination (snd (call c x s)) = sel_combination s" by (rule call_combination)
    with Cons.prems(2) later have "\<not> checkOrder (snd (call c x s)) (key c)"
      by (simp add: checkOrder_iff)
    from Cons.IH[OF Cons.prems(1) this] ok show ?case
      by (cases "call c x s") (simp split: sum.splits)
  qed
  have "fst (run (map (Pair c) vs) (snd (call c v this))) = Inr ()"
    if ns: "\<not> singleton c" and ok: "fst (call c v this) = Inr ()"
  proof -
    from ok ns have no: "\<not> checkOrder this (key c)" by (simp add: call_fst split: if_splits)
    have later: "fragments (snd (call c v this)) d = fragments this d" if "rank c < rank d" for d
      using call_accepted[OF ok, of d] that by auto
    have "sel_combination (snd (call c v this)) = sel_combination this" by (rule call_combination)
    with no later have "\<not> checkOrder (snd (call c v this)) (key c)"
      by (simp add: checkOrder_iff)
    from repeat[OF ns this] show ?thesis .
  qed
  moreover have "fst (Selector_element w (snd (Selector_element v this))) = Inl DuplicateError"
    if "fst (Selector_element v this) = Inr ()"
    using that by (simp add: Selector_element_def split: if_splits)
  ultimately show ?thesis
    by (simp add: method_defs)
qed

theorem duplicate_guard_witness:
  "fst (Selector_element ''table'' new_Selector) = Inr () \<and>
   fst (Selector_element ''div'' (snd (Selector_element ''table'' new_Selector))) = Inl DuplicateError \<and>
   Selector_id ''id2'' (snd (Selector_id ''id1'' new_Selector))
     = (Inl DuplicateError, snd (Selector_id ''id1'' new_Selector)) \<and>
   Selector_pseudoElement ''before'' (snd (Selector_pseudoElement ''after'' new_Selector))
     = (Inl DuplicateError, snd (Selector_pseudoElement ''after'' new_Selector)) \<and>
   Selector_element ''div'' (snd (Selector_element ''table'' new_Selector))
     = (Inl DuplicateError, snd (Selector_element ''table'' new_Selector)) \<and>
   fst (run [(Class, ''b''), (Class, ''c'')] (snd (call Class ''a'' new_Selector))) = Inr ()"
proof -
  have e: "fst (Selector_element ''table'' new_Selector) = Inr ()"
    by (simp add: method_defs order_defs new_Selector_def)
  have e': "sel_element (snd (Selector_element ''table'' new_Selector)) \<noteq> []"
    by (simp add: method_defs order_defs new_Selector_def)
  have i: "sel_id (snd (Selector_id ''id1'' new_Selector)) \<noteq> []"
    by (simp add: method_defs order_defs new_Selector_def)
  have p: "sel_pseudoElement (snd (Selector_pseudoElement ''after'' new_Selector)) \<noteq> []"
    by (simp add: method_defs order_defs new_Selector_def)
  have c: "\<not> singleton Class \<and> fst (call Class ''a'' new_Selector) = Inr ()"
    by (simp add: method_defs order_defs new_Selector_def)
  from e e'
    duplicate_guard[of new_Selector "''table''" "''div''" Class "[''b'', ''c'']"]
    duplicate_guard[of "snd (Selector_element ''table'' new_Selector)" "''div''"]
  have "fst (Selector_element ''div'' (snd (Selector_element ''table'' new_Selector))) = Inl DuplicateError"
    and "Selector_element ''div'' (snd (Selector_element ''table'' new_Selector))
     = (Inl DuplicateError, snd (Selector_element ''table'' new_Selector))"
    by blast+
  moreover from i duplicate_guard[of "snd (Selector_id ''id1'' new_Selector)" "''id2''"]
  have "Selector_id ''id2'' (snd (Selector_id ''id1'' new_Selector))
     = (Inl DuplicateError, snd (Selector_id ''id1'' new_Selector))"
    by blast
  moreover from p duplicate_guard[of "snd (Selector_pseudoElement ''after'' new_Selector)" "''before''"]
  have "Selector_pseudoElement ''before'' (snd (Selector_pseudoElement ''after'' new_Selector))
     = (Inl DuplicateError, snd (Selector_pseudoElement ''after'' new_Selector))"
    by blast
  moreover from c duplicate_guard[of new_Selector "''a''" _ Class "[''b'', ''c'']"]
  have "fst (run [(Class, ''b''), (Class, ''c'')] (snd (call Class ''a'' new_Selector))) = Inr ()"
    by simp
  ultimately show ?thesis using e by blast
qed

subsection \<open>C2: what stringify returns\<close>

text \<open>
  Claim C2. A sequence of calls on a fresh selector is accepted exactly when it is a valid
  sequence: categories in non-decreasing canonical order, \<open>element\<close>, \<open>id\<close> and
  \<open>pseudoElement\<close> at most once each. After a valid sequence every category holds the
  values written to it, in call order, each decorated as its method stores it (element
  verbatim, \<open>#\<close>id, \<open>.\<close>class, \<open>[\<close>attr\<open>]\<close>, \<open>:\<close>pseudoClass, \<open>::\<close>pseudoElement), and
  \<open>stringify()\<close> returns the concatenation of these fragments, category by category in
  canonical order and with no separator. In particular
  \<open>builder.id('main').class('container').class('editable').stringify()\<close> is
  \<open>#main.container.editable\<close>.
\<close>

theorem stringify_rendering:
  "(fst (run calls new_Selector) = Inr () \<longleftrightarrow> valid_calls calls) \<and>
   (valid_calls calls \<longrightarrow>
      (\<forall>c. fragments (snd (run calls new_Selector)) c = map (decorate c) (written c calls)) \<and>
      Selector_stringify (snd (run calls new_Selector)) = Str (rendering calls)) \<and>
   Selector_stringify
     (snd (Selector_class ''editable''
       (snd (Selector_class ''container''
         (snd (fst (cssSelectorBuilder_id ''main'' cssSelectorBuilder)))))))
     = Str ''#main.container.editable''"
proof (intro conjI impI)
  show "fst (run calls new_Selector) = Inr () \<longleftrightarrow> valid_calls calls"
    by (rule run_new_Selector_accepts)
next
  assume "valid_calls calls"
  then have "fst (run calls new_Selector) = Inr ()"
    by (simp add: run_new_Selector_accepts)
  then have r: "run calls new_Selector = (Inr (), snd (run calls new_Selector))"
    by (cases "run calls new_Selector") simp
  let ?s = "snd (run calls new_Selector)"
  from r have e: "?s = exec new_Selector calls" by (rule run_exec)
  have "length (fragments (exec new_Selector calls) Element) \<le> 1"
    by (rule exec_singleton_bound) (simp_all add: new_Selector_def)
  with e have one: "length (sel_element ?s) \<le> 1" by simp
  from e have none: "sel_combination ?s = []"
    by (simp add: exec_combination new_Selector_def)
  have stored: "fragments ?s c = map (decorate c) (written c calls)" for c
    using run_fragments[OF r, of c] by (cases c) (simp_all add: new_Selector_def)
  then show "\<forall>c. fragments ?s c = map (decorate c) (written c calls)" ..
  from stored show "Selector_stringify ?s = Str (rendering calls)"
    by (simp add: Selector_stringify_reachable[OF one none] rendering_def)
next
  show "Selector_stringify
     (snd (Selector_class ''editable''
       (snd (Selector_class ''container''
         (snd (fst (cssSelectorBuilder_id ''main'' cssSelectorBuilder)))))))
     = Str ''#main.container.editable''"
    by (simp add: cssSelectorBuilder_id_def method_defs order_defs new_Selector_def
        Selector_stringify_eq)
qed

text \<open>
  All six methods in one chain:
  \<open>element('a').id('link').class('ext').attr('href$=".png"').pseudoClass('focus').pseudoElement('after')\<close>.
\<close>

theorem stringify_rendering_witness:
  "valid_calls [(Element, ''a''), (Id, ''link''), (Class, ''ext''), (Attr, ''href$=\".png\"''),
      (PseudoClass, ''focus''), (PseudoElement, ''after'')] \<and>
   fst (run [(Element, ''a''), (Id, ''link''), (Class, ''ext''), (Attr, ''href$=\".png\"''),
      (PseudoClass, ''focus''), (PseudoElement, ''after'')] new_Selector) = Inr () \<and>
   fragments (snd (run [(Element, ''a''), (Id, ''link''), (Class, ''ext''), (Attr, ''href$=\".png\"''),
      (PseudoClass, ''focus''), (PseudoElement, ''after'')] new_Selector)) PseudoElement
     = [''::after''] \<and>
   Selector_stringify (snd (run [(Element, ''a''), (Id, ''link''), (Class, ''ext''),
      (Attr, ''href$=\".png\"''), (PseudoClass, ''focus''), (PseudoElement, ''after'')] new_Selector))
     = Str ''a#link.ext[href$=\".png\"]:focus::after''"
proof -
  let ?calls = "[(Element, ''a''), (Id, ''link''), (Class, ''ext''), (Attr, ''href$=\".png\"''),
      (PseudoClass, ''focus''), (PseudoElement, ''after'')]"
  have v: "valid_calls ?calls"
    by (simp add: valid_calls_def canonical_order_def written_def)
  have w: "map (decorate PseudoElement) (written PseudoElement ?calls) = [''::after'']"
    by (simp add: written_def)
  have r: "rendering ?calls = ''a#link.ext[href$=\".png\"]:focus::after''"
    by (simp add: rendering_def written_def canonical_order_def)
  from v stringify_rendering[of ?calls]
  have "fst (run ?calls new_Selector) = Inr ()"
    and "\<forall>c. fragments (snd (run ?calls new_Selector)) c = map (decorate c) (written c ?calls)"
    and "Selector_stringify (snd (run ?calls new_Selector)) = Str (rendering ?calls)"
    by blast+
  with v show ?thesis unfolding w[symmetric] r[symmetric] by blast
qed

subsection \<open>C1: the order check\<close>

text \<open>
  Claim C1, as the code has it. Once a call has added a fragment to category \<open>C\<close>, the
  fragment stays, and any later call that writes a category strictly earlier than \<open>C\<close> is
  rejected: with \<open>DuplicateError\<close> when the written category is a singleton category that
  already holds a fragment (the duplicate guard runs first), with \<open>OrderError\<close>
  otherwise. A later call that writes \<open>C\<close> or a later category is accepted exactly when
  that category is not a singleton category already holding a fragment and no category
  strictly after it holds one. \<open>checkOrder\<close> answers true exactly when some category of
  strictly greater canonical index holds at least one fragment.
\<close>

theorem order_check:
  assumes "fst (call C w (exec new_Selector before)) = Inr ()"
    and "this = exec (snd (call C w (exec new_Selector before))) later"
  shows "fragments this C \<noteq> [] \<and>
     (rank c < rank C \<longrightarrow>
        fst (call c v this) =
          (if singleton c \<and> fragments this c \<noteq> [] then Inl DuplicateError else Inl OrderError)) \<and>
     (rank C \<le> rank c \<longrightarrow>
        (fst (call c v this) = Inr () \<longleftrightarrow>
           \<not> (singleton c \<and> fragments this c \<noteq> []) \<and>
           \<not> (\<exists>d. rank c < rank d \<and> fragments this d \<noteq> []))) \<and>
     (checkOrder this (key c) \<longleftrightarrow> (\<exists>d. rank c < rank d \<and> fragments this d \<noteq> []))"
proof -
  let ?s = "exec new_Selector before"
  have "fragments (snd (call C w ?s)) C \<noteq> []"
    using call_accepted[OF assms(1), of C] by simp
  then have stays: "fragments this C \<noteq> []"
    unfolding assms(2) by (rule exec_fragments_grow)
  have "sel_combination this = []"
    unfolding assms(2) by (simp add: exec_combination call_combination new_Selector_def)
  then have check: "checkOrder this (key c) \<longleftrightarrow> (\<exists>d. rank c < rank d \<and> fragments this d \<noteq> [])" for c
    by (simp add: checkOrder_iff)
  have earlier: "fst (call c v this) =
          (if singleton c \<and> fragments this c \<noteq> [] then Inl DuplicateError else Inl OrderError)"
    if "rank c < rank C"
  proof -
    from that stays have "checkOrder this (key c)" unfolding check by blast
    then show ?thesis by (simp add: call_fst)
  qed
  have later: "fst (call c v this) = Inr () \<longleftrightarrow>
           \<not> (singleton c \<and> fragments this c \<noteq> []) \<and>
           \<not> (\<exists>d. rank c < rank d \<and> fragments this d \<noteq> [])"
    unfolding check[symmetric] by (simp add: call_fst)
  from stays earlier later check show ?thesis by blast
qed

theorem order_check_witness:
  "fst (call Class ''main'' new_Selector) = Inr () \<and>
   fst (call Id ''id'' (snd (call Class ''main'' new_Selector))) = Inl OrderError \<and>
   fst (call Class ''wide'' (snd (call Class ''main'' new_Selector))) = Inr () \<and>
   fst (call PseudoClass ''hover'' (snd (call Class ''main'' new_Selector))) = Inr () \<and>
   \<not> checkOrder (snd (call Class ''main'' new_Selector)) (key Class) \<and>
   checkOrder (snd (call Class ''main'' new_Selector)) (key Id)"
proof -
  let ?s = "snd (call Class ''main'' new_Selector)"
  have a: "fst (call Class ''main'' (exec new_Selector [])) = Inr ()"
    by (simp add: method_defs order_defs new_Selector_def)
  have b: "?s = exec (snd (call Class ''main'' (exec new_Selector []))) []"
    by simp
  have f: "fragments ?s Element = [] \<and> fragments ?s Id = [] \<and> fragments ?s Class \<noteq> [] \<and>
      fragments ?s Attr = [] \<and> fragments ?s PseudoClass = [] \<and> fragments ?s PseudoElement = []"
    by (simp add: method_defs order_defs new_Selector_def)
  have r: "rank Id < rank Class" "rank Class \<le> rank Class" "rank Class \<le> rank PseudoClass"
    by simp_all
  from order_check[OF a b, of Id "''id''"] r f
  have 1: "fst (call Id ''id'' ?s) = Inl OrderError" and 2: "checkOrder ?s (key Id)"
    by (simp_all add: ex_category)
  from order_check[OF a b, of Class "''wide''"] r f
  have 3: "fst (call Class ''wide'' ?s) = Inr ()" and 4: "\<not> checkOrder ?s (key Class)"
    by (simp_all add: ex_category)
  from order_check[OF a b, of PseudoClass "''hover''"] r f
  have 5: "fst (call PseudoClass ''hover'' ?s) = Inr ()"
    by (simp add: ex_category)
  from a 1 2 3 4 5 show ?thesis by simp
qed

text \<open>
  The claim as written fails where the earlier category is \<open>element\<close> or \<open>id\<close> and is
  already filled: \<open>element('div').id('main').element('p')\<close> writes \<open>element\<close> after \<open>id\<close>
  and raises \<open>DuplicateError\<close>, not \<open>OrderError\<close>.
\<close>

theorem order_check_counterexample:
  "fst (Selector_element ''div'' new_Selector) = Inr () \<and>
   fst (Selector_id ''main'' (snd (Selector_element ''div'' new_Selector))) = Inr () \<and>
   rank Element < rank Id \<and>
   fst (Selector_element ''p''
         (snd (Selector_id ''main'' (snd (Selector_element ''div'' new_Selector)))))
     = Inl DuplicateError \<and>
   fst (Selector_element ''p''
         (snd (Selector_id ''main'' (snd (Selector_element ''div'' new_Selector)))))
     \<noteq> Inl OrderError"
  by (simp add: method_defs order_defs new_Selector_def)

subsection \<open>C4: combine\<close>

text \<open>
  Claim C4. For all operands \<open>left\<close> and \<open>right\<close> with a \<open>stringify\<close> method, every string
  \<open>combinator\<close> and every earlier state of the facade, \<open>combine(left, combinator, right)\<close>
  stores the text of \<open>left.stringify()\<close>, a space, the combinator, a space and the text of
  \<open>right.stringify()\<close> in the facade's result slot, whatever the slot held, and the
  facade's \<open>stringify()\<close> then returns that string. Combining \<open>element('div').id('main')\<close>
  and \<open>element('table').id('data')\<close> with \<open>+\<close> gives \<open>div#main + table#data\<close>.
\<close>

theorem combine_stores_joined:
  "result (cssSelectorBuilder_combine left combinator right this) =
     Str (toString (operand_stringify left this) @ '' '' @ combinator @ '' ''
          @ toString (operand_stringify right this)) \<and>
   cssSelectorBuilder_stringify (cssSelectorBuilder_combine left combinator right this) =
     result (cssSelectorBuilder_combine left combinator right this) \<and>
   cssSelectorBuilder_combine (SelectorObj a) combinator (SelectorObj b) this =
     cssSelectorBuilder_combine (SelectorObj a) combinator (SelectorObj b) other \<and>
   cssSelectorBuilder_stringify
     (cssSelectorBuilder_combine
        (SelectorObj (snd (Selector_id ''main'' (snd (fst (cssSelectorBuilder_element ''div'' this))))))
        ''+''
        (SelectorObj (snd (Selector_id ''data'' (snd (fst (cssSelectorBuilder_element ''table'' this))))))
        this)
     = Str ''div#main + table#data''"
  by (simp add: cssSelectorBuilder_combine_def cssSelectorBuilder_stringify_def
      cssSelectorBuilder_element_def method_defs order_defs new_Selector_def
      Selector_stringify_eq)

subsection \<open>C9: the facade's stringify before any combine\<close>

text \<open>
  Claim C9. After any calls on the facade none of which is \<open>combine\<close>, the facade's
  \<open>stringify()\<close> returns \<open>undefined\<close>; the method has no \<open>throw\<close>, so nothing is raised.
\<close>

theorem stringify_before_combine:
  "\<not> list_ex is_combine calls \<Longrightarrow>
     cssSelectorBuilder_stringify (facade_exec cssSelectorBuilder calls) = Undefined"
proof -
  have same: "facade_exec this calls = this" if "\<not> list_ex is_combine calls" for this
    using that
  proof (induction calls arbitrary: this)
    case Nil
    show ?case by simp
  next
    case (Cons c cs)
    from Cons.prems have "\<not> is_combine c" and rest: "\<not> list_ex is_combine cs" by simp_all
    then have "facade_after c this = this"
      by (cases c)
         (simp_all add: cssSelectorBuilder_element_def cssSelectorBuilder_id_def
            cssSelectorBuilder_class_def cssSelectorBuilder_attr_def
            cssSelectorBuilder_pseudoClass_def cssSelectorBuilder_pseudoElement_def)
    with Cons.IH[OF rest] show ?case by simp
  qed
  assume "\<not> list_ex is_combine calls"
  then show ?thesis
    by (simp add: same cssSelectorBuilder_stringify_def cssSelectorBuilder_def)
qed

theorem stringify_before_combine_witness:
  "\<not> list_ex is_combine [F_element ''div'', F_stringify, F_id ''main''] \<and>
   cssSelectorBuilder_stringify
     (facade_exec cssSelectorBuilder [F_element ''div'', F_stringify, F_id ''main'']) = Undefined \<and>
   cssSelectorBuilder_stringify (facade_exec cssSelectorBuilder []) = Undefined"
  using stringify_before_combine[of "[F_element ''div'', F_stringify, F_id ''main'']"]
    stringify_before_combine[of "[]"]
  by simp

subsection \<open>C10: nested combinations\<close>




subsection \<open>C6: the JSON round trip\<close>

text \<open>
  Claim C6, as the code has it. Let \<open>x\<close> be a value built from null, booleans, numbers,
  strings, arrays and ordinary objects, in which every finite number is written by
  \<^verbatim>\<open>Number::toString\<close> as a JSON number that \<^verbatim>\<open>StringToNumber\<close> reads back as the
  same number, and let \<open>P\<close> be a prototype. Then the text \<open>getJSON(x)\<close> parses to \<open>x\<close> with
  \<^verbatim>\<open>null\<close> in the place of every number that is not finite, and \<open>fromJSON(P, getJSON(x))\<close>
  is what \<^verbatim>\<open>Object.setPrototypeOf\<close> makes of that value and \<open>P\<close>. So, when all numbers of
  \<open>x\<close> are finite: for an array or an object \<open>x\<close> the result is an object whose fields are
  those of \<open>x\<close> and whose prototype is \<open>P\<close>; for \<open>x = null\<close> the call throws a
  \<^verbatim>\<open>TypeError\<close>; for a number, a string or a boolean the result is that primitive, which
  \<^verbatim>\<open>Object.setPrototypeOf\<close> leaves as it is. A number \<open>n\<close> that is not finite is not
  restored: \<open>fromJSON(P, getJSON([n]))\<close> is the array \<open>[null]\<close> with prototype \<open>P\<close>, and
  \<open>fromJSON(P, getJSON(n))\<close> throws a \<^verbatim>\<open>TypeError\<close>.
\<close>

theorem fromJSON_getJSON:
  assumes "plain N (nulled N x)"
  shows "JSON_parse N (getJSON N x) = Inr (nulled N x) \<and>
     fromJSON N P (getJSON N x) = Object_setPrototypeOf (nulled N x) P \<and>
     (plain N x \<longrightarrow>
        (is_object x \<longrightarrow> fromJSON N P (getJSON N x) = Inr (Object x P)) \<and>
        (x = JNull \<longrightarrow> fromJSON N P (getJSON N x) = Inl TypeError) \<and>
        (\<not> is_object x \<and> x \<noteq> JNull \<longrightarrow> fromJSON N P (getJSON N x) = Inr (Primitive x))) \<and>
     (\<not> isFinite N n \<longrightarrow>
        fromJSON N P (getJSON N (JArr [JNum n])) = Inr (Object (JArr [JNull]) P) \<and>
        fromJSON N P (getJSON N (JNum n)) = Inl TypeError)"
proof -
  have parsed: "JSON_parse N (getJSON N y) = Inr (nulled N y)" if "plain N (nulled N y)" for y
    using JSON_roundtrip[OF that] by (simp add: getJSON_def JSON_stringify_nulled)
  have rebound: "fromJSON N P (getJSON N y) = Object_setPrototypeOf (nulled N y) P"
    if "plain N (nulled N y)" for y
    using parsed[OF that] by (simp add: fromJSON_def)
  have whole: "plain N x \<Longrightarrow> fromJSON N P (getJSON N x) = Object_setPrototypeOf x P"
    using rebound[OF assms] by (simp add: plain_nulled)
  have nan: "fromJSON N P (getJSON N (JArr [JNum n])) = Inr (Object (JArr [JNull]) P)"
    and nan': "fromJSON N P (getJSON N (JNum n)) = Inl TypeError"
    if "\<not> isFinite N n"
    using rebound[of "JArr [JNum n]"] rebound[of "JNum n"] that by simp_all
  from parsed[OF assms] rebound[OF assms] whole nan nan' show ?thesis
    by (cases x) simp_all
qed

text \<open>
  The theorem at the example of the source's documentation, a circle of radius 10 restored
  with \<^verbatim>\<open>Circle.prototype\<close>, at a nested value with a number that is not finite, a surrogate
  pair, a lone surrogate, a line feed and an object with an array-index key, and at a
  number that is not finite and a string on their own.
\<close>

theorem fromJSON_getJSON_witness:
  "getJSON integers_with_NaN (JObj [(ascii ''radius'', JNum (Finite 10))]) = ascii ''{\"radius\":10}'' \<and>
   fromJSON integers_with_NaN ''Circle.prototype'' (ascii ''{\"radius\":10}'') =
     Inr (Object (JObj [(ascii ''radius'', JNum (Finite 10))]) ''Circle.prototype'') \<and>
   fromJSON integers_with_NaN ''Circle.prototype''
     (getJSON integers_with_NaN
        (JArr [JNum NaN, JStr [0xD83D, 0xDE00, 0xDC00, 0x0A],
               JObj [(ascii ''7'', JBool True), (ascii ''b'', JNum (Finite (- 20)))]])) =
     Inr (Object
        (JArr [JNull, JStr [0xD83D, 0xDE00, 0xDC00, 0x0A],
               JObj [(ascii ''7'', JBool True), (ascii ''b'', JNum (Finite (- 20)))]])
        ''Circle.prototype'') \<and>
   fromJSON integers_with_NaN ''Circle.prototype'' (getJSON integers_with_NaN (JArr [JNum NaN])) =
     Inr (Object (JArr [JNull]) ''Circle.prototype'') \<and>
   fromJSON integers_with_NaN ''Circle.prototype'' (getJSON integers_with_NaN (JNum NaN)) =
     Inl TypeError \<and>
   fromJSON integers_with_NaN ''Circle.prototype'' (getJSON integers_with_NaN (JStr (ascii ''a\"b''))) =
     Inr (Primitive (JStr (ascii ''a\"b'')))"
proof -
  let ?N = integers_with_NaN
  let ?circle = "JObj [(ascii ''radius'', JNum (Finite 10))]"
  let ?mixed = "JArr [JNum NaN, JStr [0xD83D, 0xDE00, 0xDC00, 0x0A],
     JObj [(ascii ''7'', JBool True), (ascii ''b'', JNum (Finite (- 20)))]]"
  have finite: "isFinite ?N (Finite i)" "\<not> isFinite ?N NaN" for i
    by (simp_all add: integers_with_NaN_def)
  have json: "getJSON ?N ?circle = ascii ''{\"radius\":10}''"
    by (simp add: getJSON_def finite QuoteJSONString_def QuoteJSONUnit_def ascii_def
        is_leading_surrogate_def is_trailing_surrogate_def integers_with_NaN_def digits_10)
  have "plain ?N (nulled ?N ?circle)"
    using plain_samples(1) by (simp add: finite)
  from fromJSON_getJSON[OF this, of "''Circle.prototype''" NaN] plain_samples(1)
  have circle: "fromJSON ?N ''Circle.prototype'' (getJSON ?N ?circle) =
      Inr (Object ?circle ''Circle.prototype'')"
    by simp
  have "plain ?N (nulled ?N ?mixed)"
    using plain_samples(2) by (simp add: finite)
  from fromJSON_getJSON[OF this, of "''Circle.prototype''" NaN]
  have mixed: "fromJSON ?N ''Circle.prototype'' (getJSON ?N ?mixed) =
      Object_setPrototypeOf (nulled ?N ?mixed) ''Circle.prototype''"
    and nan: "fromJSON ?N ''Circle.prototype'' (getJSON ?N (JArr [JNum NaN])) =
      Inr (Object (JArr [JNull]) ''Circle.prototype'')"
    and nan': "fromJSON ?N ''Circle.prototype'' (getJSON ?N (JNum NaN)) = Inl TypeError"
    using finite(2) by blast+
  have "plain ?N (nulled ?N (JStr (ascii ''a\"b'')))"
    using plain_samples(3) by simp
  from fromJSON_getJSON[OF this, of "''Circle.prototype''" NaN] plain_samples(3)
  have prim: "fromJSON ?N ''Circle.prototype'' (getJSON ?N (JStr (ascii ''a\"b''))) =
      Inr (Primitive (JStr (ascii ''a\"b'')))"
    by simp
  from mixed have mixed': "fromJSON ?N ''Circle.prototype'' (getJSON ?N ?mixed) =
     Inr (Object
        (JArr [JNull, JStr [0xD83D, 0xDE00, 0xDC00, 0x0A],
               JObj [(ascii ''7'', JBool True), (ascii ''b'', JNum (Finite (- 20)))]])
        ''Circle.prototype'')"
    by (simp add: finite)
  from circle have circle': "fromJSON ?N ''Circle.prototype'' (ascii ''{\"radius\":10}'') =
      Inr (Object ?circle ''Circle.prototype'')"
    unfolding json .
  from json circle' mixed' nan nan' prim show ?thesis by (intro conjI)
qed

text \<open>
  The sentence of the specification speaks of every plain structured value, null included.
  For \<open>x = null\<close> no object is produced: \<^verbatim>\<open>JSON.stringify(null)\<close> is the text
  \<^verbatim>\<open>null\<close>, \<^verbatim>\<open>JSON.parse\<close> returns \<^verbatim>\<open>null\<close> for it, and
  \<^verbatim>\<open>Object.setPrototypeOf(null, P)\<close> throws a \<^verbatim>\<open>TypeError\<close>.
\<close>

theorem fromJSON_getJSON_counterexample:
  "getJSON integers_with_NaN JNull = ascii ''null'' \<and>
   JSON_parse integers_with_NaN (ascii ''null'') = Inr JNull \<and>
   fromJSON integers_with_NaN ''Circle.prototype'' (getJSON integers_with_NaN JNull) = Inl TypeError"
proof -
  have "JSON_parse integers_with_NaN (JSON_stringify integers_with_NaN JNull) = Inr JNull"
    by (rule JSON_roundtrip) simp
  then show ?thesis by (simp add: getJSON_def fromJSON_def)
qed

end
